theory Spec2Isabelle
  imports Main
begin

section \<open>ngx-history: the navigation history service\<close>

text \<open>
  A shallow embedding of \<^verbatim>\<open>projects/ngx-history/src/lib/history.service.ts\<close>.
  The class \<^verbatim>\<open>HistoryService\<close> becomes a record of its fields; every method becomes a
  function from the record to the updated record. The two RxJS subjects are modelled by
  the list of values pushed into them so far (oldest first). An \<^verbatim>\<open>async\<close> method is cut
  at its \<^verbatim>\<open>await\<close>: one function for the part that runs before the suspension and one
  for the part that runs when the awaited promise settles.

  Left out: \<^verbatim>\<open>log\<close> (console output in debug mode only), the \<^verbatim>\<open>timestamp\<close> of an error
  (wall-clock time) and the subscription bookkeeping of \<^verbatim>\<open>ngOnDestroy\<close>.
\<close>

subsection \<open>JavaScript primitives used by the service\<close>

text \<open>\<^verbatim>\<open>a || b\<close> on strings: the empty string is falsy.\<close>

definition js_or :: "string \<Rightarrow> string \<Rightarrow> string" where
  "js_or a b = (if a = [] then b else a)"

text \<open>\<^verbatim>\<open>xs.indexOf(x)\<close>: the first position of \<open>x\<close>, or \<open>-1\<close>.\<close>

fun indexOf :: "'a list \<Rightarrow> 'a \<Rightarrow> int" where
  "indexOf [] x = - 1"
| "indexOf (y # ys) x =
     (if y = x then 0 else (let r = indexOf ys x in if r = - 1 then - 1 else r + 1))"

text \<open>\<^verbatim>\<open>xs.includes(x)\<close>.\<close>

definition js_includes :: "'a list \<Rightarrow> 'a \<Rightarrow> bool" where
  "js_includes xs x = (x \<in> set xs)"

text \<open>\<^verbatim>\<open>xs[i]\<close>: \<^verbatim>\<open>undefined\<close> (here \<open>None\<close>) outside the array.\<close>

definition js_index :: "'a list \<Rightarrow> int \<Rightarrow> 'a option" where
  "js_index xs i = (if 0 \<le> i \<and> i < int (length xs) then Some (xs ! nat i) else None)"

text \<open>
  \<^verbatim>\<open>xs.splice(start)\<close>: removes everything from \<open>start\<close> on; a negative \<open>start\<close>
  counts from the end. The function returns what is left in the array.
\<close>

definition splice_from :: "int \<Rightarrow> 'a list \<Rightarrow> 'a list" where
  "splice_from start xs =
     (let n = int (length xs);
          k = (if start < 0 then max (n + start) 0 else min start n)
      in take (nat k) xs)"

text \<open>
  \<^verbatim>\<open>xs.splice(0, count)\<close>: removes the first \<open>count\<close> elements (none when \<open>count\<close> is
  negative, all when it exceeds the length).
\<close>

definition splice_front :: "int \<Rightarrow> 'a list \<Rightarrow> 'a list" where
  "splice_front count xs = drop (nat (min (max count 0) (int (length xs)))) xs"

text \<open>Decimal rendering of a number inside a template string.\<close>

definition digit_char :: "nat \<Rightarrow> char" where
  "digit_char d = char_of (48 + d)"

function show_nat :: "nat \<Rightarrow> string" where
  "show_nat n = (if n < 10 then [digit_char n] else show_nat (n div 10) @ [digit_char (n mod 10)])"
  by pat_completeness auto
termination
  by (relation "measure (\<lambda>n. n)") auto

declare show_nat.simps [simp del]

definition show_int :: "int \<Rightarrow> string" where
  "show_int i = (if i < 0 then CHR ''-'' # show_nat (nat (- i)) else show_nat (nat i))"

text \<open>A string or \<^verbatim>\<open>undefined\<close> inside a template string.\<close>

definition show_path :: "string option \<Rightarrow> string" where
  "show_path p = (case p of None \<Rightarrow> ''undefined'' | Some t \<Rightarrow> t)"

subsection \<open>Data model\<close>

record HistoryConfig =
  maxHistoryLength :: int
  debugMode :: bool
  autoInitialize :: bool
  defaultRoute :: string

definition DEFAULT_HISTORY_CONFIG :: HistoryConfig where
  "DEFAULT_HISTORY_CONFIG =
     \<lparr>maxHistoryLength = 50, debugMode = False, autoInitialize = True, defaultRoute = ''/''\<rparr>"

text \<open>\<^verbatim>\<open>Partial<HistoryConfig>\<close>: every field may be absent.\<close>

record PartialHistoryConfig =
  opt_maxHistoryLength :: "int option"
  opt_debugMode :: "bool option"
  opt_autoInitialize :: "bool option"
  opt_defaultRoute :: "string option"

text \<open>\<^verbatim>\<open>{ ...DEFAULT_HISTORY_CONFIG, ...config }\<close>\<close>

definition merge_config :: "PartialHistoryConfig option \<Rightarrow> HistoryConfig" where
  "merge_config c =
     (case c of
        None \<Rightarrow> DEFAULT_HISTORY_CONFIG
      | Some p \<Rightarrow>
          \<lparr>maxHistoryLength =
             (case opt_maxHistoryLength p of None \<Rightarrow> maxHistoryLength DEFAULT_HISTORY_CONFIG | Some v \<Rightarrow> v),
           debugMode =
             (case opt_debugMode p of None \<Rightarrow> debugMode DEFAULT_HISTORY_CONFIG | Some v \<Rightarrow> v),
           autoInitialize =
             (case opt_autoInitialize p of None \<Rightarrow> autoInitialize DEFAULT_HISTORY_CONFIG | Some v \<Rightarrow> v),
           defaultRoute =
             (case opt_defaultRoute p of None \<Rightarrow> defaultRoute DEFAULT_HISTORY_CONFIG | Some v \<Rightarrow> v)\<rparr>)"

datatype NavigationErrorType =
  NAVIGATION_FAILED | INVALID_INDEX | INITIALIZATION_FAILED | CONCURRENT_NAVIGATION

text \<open>
  A fault thrown by the router (\<^verbatim>\<open>unknown\<close> in the source) is represented by its string
  rendering, which is all the service ever does with it.
\<close>

type_synonym fault = string

record NavigationError =
  err_type :: NavigationErrorType
  message :: string
  originalError :: "fault option"

record NavigationState =
  paths :: "string list"
  currentIndex :: int
  canGoBack :: bool
  canGoForward :: bool
  currentPath :: string
  historyLength :: int
  isNavigating :: bool

text \<open>
  The fields of the class. \<open>priv_paths\<close>, \<open>priv_currentIndex\<close> and \<open>priv_isNavigating\<close>
  are \<^verbatim>\<open>_paths\<close>, \<^verbatim>\<open>_currentIndex\<close> and \<^verbatim>\<open>_isNavigating\<close>. \<open>location\<close> is what the
  injected \<^verbatim>\<open>Location.path()\<close> returns at the moment; the service only reads it, the
  environment changes it. \<open>navigationPromise\<close> holds the identity of the promise stored
  in the field (\<open>None\<close> for \<^verbatim>\<open>null\<close>). \<open>navigationState_log\<close> and \<open>navigationError_log\<close>
  are the values pushed into \<^verbatim>\<open>_navigationState$\<close> and \<^verbatim>\<open>_navigationError$\<close>.
\<close>

record HistoryService =
  config :: HistoryConfig
  location :: string
  navigationPromise :: "nat option"
  isInternalNavigation :: bool
  previousPath :: "string option"
  isInitialized :: bool
  priv_paths :: "string list"
  priv_currentIndex :: int
  priv_isNavigating :: bool
  navigationState_log :: "NavigationState list"
  navigationError_log :: "NavigationError list"

subsection \<open>Getters\<close>

definition get_paths :: "HistoryService \<Rightarrow> string list" where
  "get_paths s = priv_paths s"

definition get_canGoBack :: "HistoryService \<Rightarrow> bool" where
  "get_canGoBack s = (priv_currentIndex s > 0)"

definition get_canGoForward :: "HistoryService \<Rightarrow> bool" where
  "get_canGoForward s = (priv_currentIndex s < int (length (priv_paths s)) - 1)"

definition get_currentPath :: "HistoryService \<Rightarrow> string" where
  "get_currentPath s =
     (let dflt = js_or (defaultRoute (config s)) ''/'' in js_or (location s) dflt)"

definition get_historyLength :: "HistoryService \<Rightarrow> int" where
  "get_historyLength s = int (length (priv_paths s))"

definition get_isNavigating :: "HistoryService \<Rightarrow> bool" where
  "get_isNavigating s = priv_isNavigating s"

definition get_currentState :: "HistoryService \<Rightarrow> NavigationState" where
  "get_currentState s = last (navigationState_log s)"

definition initialized :: "HistoryService \<Rightarrow> bool" where
  "initialized s = isInitialized s"

definition getPathAtIndex :: "int \<Rightarrow> HistoryService \<Rightarrow> string option" where
  "getPathAtIndex i s = js_index (priv_paths s) i"

definition hasPath :: "string \<Rightarrow> HistoryService \<Rightarrow> bool" where
  "hasPath p s = js_includes (priv_paths s) p"

subsection \<open>State and error emission\<close>

definition createInitialState :: "HistoryConfig \<Rightarrow> NavigationState" where
  "createInitialState c =
     \<lparr>paths = [], currentIndex = 0, canGoBack = False, canGoForward = False,
      currentPath = js_or (defaultRoute c) ''/'', historyLength = 0, isNavigating = False\<rparr>"

definition snapshot :: "HistoryService \<Rightarrow> NavigationState" where
  "snapshot s =
     \<lparr>paths = get_paths s, currentIndex = priv_currentIndex s,
      canGoBack = get_canGoBack s, canGoForward = get_canGoForward s,
      currentPath = get_currentPath s, historyLength = get_historyLength s,
      isNavigating = priv_isNavigating s\<rparr>"

definition updateNavigationState :: "HistoryService \<Rightarrow> HistoryService" where
  "updateNavigationState s = s\<lparr>navigationState_log := navigationState_log s @ [snapshot s]\<rparr>"

definition emitError ::
  "NavigationErrorType \<Rightarrow> string \<Rightarrow> fault option \<Rightarrow> HistoryService \<Rightarrow> HistoryService" where
  "emitError t m e s =
     s\<lparr>navigationError_log :=
         navigationError_log s @ [\<lparr>err_type = t, message = m, originalError = e\<rparr>]\<rparr>"

subsection \<open>The history stack\<close>

definition addToHistory :: "string \<Rightarrow> HistoryService \<Rightarrow> HistoryService" where
  "addToHistory path s =
     (let s1 = s\<lparr>priv_paths := priv_paths s @ [path]\<rparr>
      in if int (length (priv_paths s1)) > maxHistoryLength (config s1)
         then (let removedCount = int (length (priv_paths s1)) - maxHistoryLength (config s1)
               in s1\<lparr>priv_paths := splice_front removedCount (priv_paths s1),
                     priv_currentIndex := max 0 (priv_currentIndex s1 - removedCount)\<rparr>)
         else s1)"

definition handleInternalNavigation :: "HistoryService \<Rightarrow> HistoryService" where
  "handleInternalNavigation s =
     updateNavigationState (s\<lparr>isInternalNavigation := False, priv_isNavigating := False\<rparr>)"

definition handleExternalNavigation :: "string \<Rightarrow> HistoryService \<Rightarrow> HistoryService" where
  "handleExternalNavigation path s =
     (let s1 = (if priv_currentIndex s < int (length (priv_paths s)) - 1
                then s\<lparr>priv_paths := splice_from (priv_currentIndex s + 1) (priv_paths s)\<rparr>
                else s);
          s2 = addToHistory path s1;
          s3 = s2\<lparr>priv_currentIndex := int (length (priv_paths s2)) - 1\<rparr>
      in updateNavigationState s3)"

definition handleBrowserHistoryChange :: "HistoryService \<Rightarrow> HistoryService" where
  "handleBrowserHistoryChange s =
     (let cur = get_currentPath s;
          pathIndex = indexOf (priv_paths s) cur
      in if pathIndex \<noteq> - 1
         then updateNavigationState (s\<lparr>priv_currentIndex := pathIndex\<rparr>)
         else handleExternalNavigation cur s)"

text \<open>The callback registered with \<^verbatim>\<open>location.onUrlChange\<close> in \<^verbatim>\<open>setupLocationListener\<close>.\<close>

definition locationListener :: "string \<Rightarrow> HistoryService \<Rightarrow> HistoryService" where
  "locationListener path s =
     (if previousPath s \<noteq> Some path
      then (let s1 = s\<lparr>previousPath := Some path\<rparr>
            in if isInternalNavigation s1 then handleInternalNavigation s1
               else handleExternalNavigation path s1)
      else s)"

definition initializeWithCurrentRoute :: "HistoryService \<Rightarrow> HistoryService" where
  "initializeWithCurrentRoute s =
     (let cur = get_currentPath s
      in if \<not> js_includes (priv_paths s) cur
         then (updateNavigationState (addToHistory cur s))\<lparr>isInitialized := True\<rparr>
         else s)"

text \<open>
  The constructor, given what \<^verbatim>\<open>Location.path()\<close> returns at that moment and the
  injected partial configuration.
\<close>

definition new_HistoryService :: "string \<Rightarrow> PartialHistoryConfig option \<Rightarrow> HistoryService" where
  "new_HistoryService loc c =
     (let cfg = merge_config c;
          s = \<lparr>config = cfg, location = loc, navigationPromise = None,
               isInternalNavigation = False, previousPath = None, isInitialized = False,
               priv_paths = [], priv_currentIndex = 0, priv_isNavigating = False,
               navigationState_log = [createInitialState cfg], navigationError_log = []\<rparr>
      in if autoInitialize cfg then initializeWithCurrentRoute s else s)"

definition clearHistory :: "HistoryService \<Rightarrow> HistoryService" where
  "clearHistory s = updateNavigationState (s\<lparr>priv_paths := [], priv_currentIndex := 0\<rparr>)"

subsection \<open>Index navigation\<close>

text \<open>
  How the awaited \<^verbatim>\<open>router.navigateByUrl(...)\<close> promise settles: it resolves with a
  boolean or rejects with a fault.
\<close>

datatype outcome = Resolved bool | Rejected fault

text \<open>
  \<^verbatim>\<open>performNavigation\<close> up to its \<^verbatim>\<open>await\<close>: the flags and the index are written, the state
  is emitted and the router is called with the target, which is returned here.
\<close>

definition performNavigation_start :: "int \<Rightarrow> HistoryService \<Rightarrow> HistoryService \<times> string option" where
  "performNavigation_start index s =
     (let s1 = s\<lparr>priv_isNavigating := True, isInternalNavigation := True,
                 priv_currentIndex := index\<rparr>;
          targetPath = js_index (priv_paths s1) index
      in (updateNavigationState s1, targetPath))"

text \<open>
  \<^verbatim>\<open>performNavigation\<close> from the moment the router's promise has settled, with its
  \<^verbatim>\<open>catch\<close> and \<^verbatim>\<open>finally\<close> blocks; the boolean is what the method's promise resolves to.
\<close>

definition performNavigation_settle ::
  "string option \<Rightarrow> outcome \<Rightarrow> HistoryService \<Rightarrow> HistoryService \<times> bool" where
  "performNavigation_settle targetPath r s =
     (let (s1, res) =
        (case r of
           Resolved success \<Rightarrow>
             (if \<not> success
              then ((emitError NAVIGATION_FAILED (''Failed to navigate to '' @ show_path targetPath) None s)
                      \<lparr>isInternalNavigation := False, priv_isNavigating := False\<rparr>, success)
              else (s, success))
         | Rejected e \<Rightarrow>
             ((emitError NAVIGATION_FAILED (''Navigation error: '' @ e) (Some e) s)
                \<lparr>isInternalNavigation := False, priv_isNavigating := False\<rparr>, False))
      in (s1\<lparr>navigationPromise := None\<rparr>, res))"

text \<open>
  Where a call of \<^verbatim>\<open>navigateToIndex\<close> (and so of \<^verbatim>\<open>goBack\<close>, \<^verbatim>\<open>goForward\<close>,
  \<^verbatim>\<open>navigateToPath\<close>) stands when control returns to the caller: it has returned a
  boolean, or it awaits the promise found in \<^verbatim>\<open>navigationPromise\<close> (keeping the index it
  was given), or its \<^verbatim>\<open>performNavigation\<close> awaits the router.
\<close>

datatype call_status =
  Returned bool
| AwaitPromise nat int
| AwaitNavigator "string option"

text \<open>
  \<^verbatim>\<open>this.navigationPromise = this.performNavigation(index)\<close>; \<open>pid\<close> names the promise
  that \<^verbatim>\<open>performNavigation\<close> returns.
\<close>

definition navigateToIndex_proceed :: "nat \<Rightarrow> int \<Rightarrow> HistoryService \<Rightarrow> HistoryService \<times> call_status" where
  "navigateToIndex_proceed pid index s =
     (let (s1, targetPath) = performNavigation_start index s
      in (s1\<lparr>navigationPromise := Some pid\<rparr>, AwaitNavigator targetPath))"

definition navigateToIndex :: "nat \<Rightarrow> int \<Rightarrow> HistoryService \<Rightarrow> HistoryService \<times> call_status" where
  "navigateToIndex pid index s =
     (if index < 0 \<or> index \<ge> int (length (priv_paths s))
      then (emitError INVALID_INDEX
              (''Invalid navigation index '' @ show_int index @ ''. Valid range: 0-''
                 @ show_int (int (length (priv_paths s)) - 1)) None s,
            Returned False)
      else (case navigationPromise s of
              Some p \<Rightarrow>
                (emitError CONCURRENT_NAVIGATION ''Navigation already in progress, waiting...'' None s,
                 AwaitPromise p index)
            | None \<Rightarrow> navigateToIndex_proceed pid index s))"

definition goBack :: "nat \<Rightarrow> HistoryService \<Rightarrow> HistoryService \<times> call_status" where
  "goBack pid s =
     (if \<not> get_canGoBack s
      then (emitError INVALID_INDEX ''Cannot go back, already at the beginning of history'' None s,
            Returned False)
      else navigateToIndex pid (priv_currentIndex s - 1) s)"

definition goForward :: "nat \<Rightarrow> HistoryService \<Rightarrow> HistoryService \<times> call_status" where
  "goForward pid s =
     (if \<not> get_canGoForward s
      then (emitError INVALID_INDEX ''Cannot go forward, already at the end of history'' None s,
            Returned False)
      else navigateToIndex pid (priv_currentIndex s + 1) s)"

definition navigateToPath :: "nat \<Rightarrow> string \<Rightarrow> HistoryService \<Rightarrow> HistoryService \<times> call_status" where
  "navigateToPath pid path s =
     (let index = indexOf (priv_paths s) path
      in if index = - 1
         then (emitError INVALID_INDEX (''Path not found in history: '' @ path) None s, Returned False)
         else navigateToIndex pid index s)"

subsection \<open>Initialization\<close>

text \<open>\<^verbatim>\<open>initialize(path?)\<close> up to its \<^verbatim>\<open>await\<close>; the resolved path is returned.\<close>

definition initialize_start :: "string option \<Rightarrow> HistoryService \<Rightarrow> HistoryService \<times> string" where
  "initialize_start path s =
     (let initialPath =
            js_or (case path of None \<Rightarrow> [] | Some p \<Rightarrow> p)
              (js_or (get_currentPath s) (js_or (defaultRoute (config s)) ''/''));
          s1 = updateNavigationState (s\<lparr>priv_isNavigating := True, isInternalNavigation := True\<rparr>)
      in (s1, initialPath))"

text \<open>\<^verbatim>\<open>initialize\<close> from the moment the router's promise has settled.\<close>

definition initialize_settle :: "string \<Rightarrow> outcome \<Rightarrow> HistoryService \<Rightarrow> HistoryService \<times> bool" where
  "initialize_settle initialPath r s =
     (case r of
        Resolved success \<Rightarrow>
          (let s1 =
             (if success
              then updateNavigationState
                     ((addToHistory initialPath (s\<lparr>priv_paths := []\<rparr>))
                        \<lparr>priv_currentIndex := 0, isInitialized := True\<rparr>)
              else emitError INITIALIZATION_FAILED
                     (''Failed to navigate to initial path: '' @ initialPath) None s)
           in (s1\<lparr>isInternalNavigation := False, priv_isNavigating := False\<rparr>, success))
      | Rejected e \<Rightarrow>
          ((emitError INITIALIZATION_FAILED ''Initialization failed'' (Some e) s)
             \<lparr>isInternalNavigation := False, priv_isNavigating := False\<rparr>, False))"

text \<open>\<^verbatim>\<open>reset()\<close> is \<^verbatim>\<open>initialize()\<close> without an argument.\<close>

definition reset_start :: "HistoryService \<Rightarrow> HistoryService \<times> string" where
  "reset_start s = initialize_start None s"

subsection \<open>The single-threaded timeline\<close>

text \<open>
  The service runs on the JavaScript event loop. A runtime state holds the service and
  the calls that are suspended: \<open>navigating\<close> lists the \<^verbatim>\<open>performNavigation\<close> calls that
  await the router (promise and target), \<open>queued\<close> the \<^verbatim>\<open>navigateToIndex\<close> calls that
  await an earlier promise (own promise, awaited promise, index), \<open>initializing\<close> the
  \<^verbatim>\<open>initialize\<close> calls that await the router, and \<open>settled\<close> the calls whose promise has
  resolved, with the boolean. Promises are numbered in the order of the calls.
\<close>

record Runtime =
  service :: HistoryService
  navigating :: "(nat \<times> string option) list"
  queued :: "(nat \<times> nat \<times> int) list"
  initializing :: "(nat \<times> string) list"
  settled :: "(nat \<times> bool) list"
  nextId :: nat

text \<open>
  What the environment can do: call a public method, report a location change (the
  location already shows the new path when the listener runs), fire \<^verbatim>\<open>popstate\<close>, or
  settle the router promise that a suspended call awaits.
\<close>

datatype event =
  CallGoBack
| CallGoForward
| CallNavigateToPath string
| CallInitialize "string option"
| CallReset
| CallClearHistory
| UrlChange string
| PopState string
| RouterSettles nat outcome

definition boot :: "HistoryService \<Rightarrow> Runtime" where
  "boot s = \<lparr>service = s, navigating = [], queued = [], initializing = [], settled = [], nextId = 0\<rparr>"

text \<open>
  A queued call resumes after the promise it awaited has settled: it goes on to
  \<^verbatim>\<open>performNavigation\<close> with the index it was given, without validating it again.
\<close>

definition resume :: "Runtime \<Rightarrow> nat \<times> nat \<times> int \<Rightarrow> Runtime" where
  "resume w q =
     (case q of (pid, awaited, index) \<Rightarrow>
        (case navigateToIndex_proceed pid index (service w) of
           (s, AwaitNavigator t) \<Rightarrow> w\<lparr>service := s, navigating := navigating w @ [(pid, t)]\<rparr>
         | (s, _) \<Rightarrow> w\<lparr>service := s\<rparr>))"

text \<open>
  Recording a call that has just returned to its caller. Awaiting a promise that no
  suspended \<^verbatim>\<open>performNavigation\<close> owns any more resumes at once.
\<close>

definition record_call :: "Runtime \<Rightarrow> HistoryService \<times> call_status \<Rightarrow> Runtime" where
  "record_call w r =
     (let pid = nextId w; w1 = w\<lparr>service := fst r, nextId := Suc pid\<rparr>
      in case snd r of
           Returned b \<Rightarrow> w1\<lparr>settled := settled w1 @ [(pid, b)]\<rparr>
         | AwaitNavigator t \<Rightarrow> w1\<lparr>navigating := navigating w1 @ [(pid, t)]\<rparr>
         | AwaitPromise p index \<Rightarrow>
             (if p \<in> fst ` set (navigating w1)
              then w1\<lparr>queued := queued w1 @ [(pid, p, index)]\<rparr>
              else resume w1 (pid, p, index)))"

definition router_settles :: "nat \<Rightarrow> outcome \<Rightarrow> Runtime \<Rightarrow> Runtime" where
  "router_settles pid r w =
     (case map_of (navigating w) pid of
        Some t \<Rightarrow>
          (let (s, b) = performNavigation_settle t r (service w);
               w1 = w\<lparr>service := s,
                      navigating := filter (\<lambda>c. fst c \<noteq> pid) (navigating w),
                      queued := filter (\<lambda>q. fst (snd q) \<noteq> pid) (queued w),
                      settled := settled w @ [(pid, b)]\<rparr>
           in foldl resume w1 (filter (\<lambda>q. fst (snd q) = pid) (queued w)))
      | None \<Rightarrow>
          (case map_of (initializing w) pid of
             Some initialPath \<Rightarrow>
               (let (s, b) = initialize_settle initialPath r (service w)
                in w\<lparr>service := s,
                     initializing := filter (\<lambda>c. fst c \<noteq> pid) (initializing w),
                     settled := settled w @ [(pid, b)]\<rparr>)
           | None \<Rightarrow> w))"

definition call_initialize :: "string option \<Rightarrow> Runtime \<Rightarrow> Runtime" where
  "call_initialize path w =
     (let (s, initialPath) = initialize_start path (service w)
      in w\<lparr>service := s, initializing := initializing w @ [(nextId w, initialPath)],
           nextId := Suc (nextId w)\<rparr>)"

fun step :: "Runtime \<Rightarrow> event \<Rightarrow> Runtime" where
  "step w CallGoBack = record_call w (goBack (nextId w) (service w))"
| "step w CallGoForward = record_call w (goForward (nextId w) (service w))"
| "step w (CallNavigateToPath p) = record_call w (navigateToPath (nextId w) p (service w))"
| "step w (CallInitialize path) = call_initialize path w"
| "step w CallReset = call_initialize None w"
| "step w CallClearHistory = w\<lparr>service := clearHistory (service w)\<rparr>"
| "step w (UrlChange p) = w\<lparr>service := locationListener p ((service w)\<lparr>location := p\<rparr>)\<rparr>"
| "step w (PopState p) = w\<lparr>service := handleBrowserHistoryChange ((service w)\<lparr>location := p\<rparr>)\<rparr>"
| "step w (RouterSettles pid r) = router_settles pid r w"

definition run :: "Runtime \<Rightarrow> event list \<Rightarrow> Runtime" where
  "run w es = foldl step w es"

text \<open>A sequence of location changes reported to the listener, one after the other.\<close>

definition observeAll :: "string list \<Rightarrow> HistoryService \<Rightarrow> HistoryService" where
  "observeAll ps s = foldl (\<lambda>t p. locationListener p (t\<lparr>location := p\<rparr>)) s ps"

subsection \<open>Notions used in the statements\<close>

text \<open>The stack that \<open>handleExternalNavigation\<close> appends to: the forward branch is cut.\<close>

definition kept :: "HistoryService \<Rightarrow> string list" where
  "kept s = (if priv_currentIndex s < int (length (priv_paths s)) - 1
             then splice_from (priv_currentIndex s + 1) (priv_paths s) else priv_paths s)"

text \<open>The last \<open>m\<close> entries of a list (all of it when it is shorter).\<close>

definition most_recent :: "int \<Rightarrow> 'a list \<Rightarrow> 'a list" where
  "most_recent m xs = drop (nat (int (length xs) - m)) xs"

text \<open>The index addresses an entry of the stack, or the stack is empty and the index is 0.\<close>

definition index_in_range :: "HistoryService \<Rightarrow> bool" where
  "index_in_range s =
     (if priv_paths s = [] then priv_currentIndex s = 0
      else 0 \<le> priv_currentIndex s \<and> priv_currentIndex s < int (length (priv_paths s)))"

text \<open>Events that neither start nor settle a navigation.\<close>

fun is_passive :: "event \<Rightarrow> bool" where
  "is_passive (UrlChange p) = True"
| "is_passive (PopState p) = True"
| "is_passive CallClearHistory = True"
| "is_passive _ = False"

text \<open>
  The index that \<open>goBack\<close>, \<open>goForward\<close> or \<open>navigateToPath\<close> hands to
  \<open>navigateToIndex\<close>, when its own guard lets the call through.
\<close>

fun requested_index :: "event \<Rightarrow> HistoryService \<Rightarrow> int option" where
  "requested_index CallGoBack s =
     (if get_canGoBack s then Some (priv_currentIndex s - 1) else None)"
| "requested_index CallGoForward s =
     (if get_canGoForward s then Some (priv_currentIndex s + 1) else None)"
| "requested_index (CallNavigateToPath p) s =
     (let index = indexOf (priv_paths s) p in if index = - 1 then None else Some index)"
| "requested_index _ s = None"

subsection \<open>Sample states\<close>

text \<open>States on which the theorems below are exercised.\<close>

text \<open>A service constructed at \<open>/home\<close> with the default configuration: stack \<open>[/home]\<close>.\<close>

definition demo_fresh :: HistoryService where
  "demo_fresh = new_HistoryService ''/home'' None"

text \<open>Two external navigations later: stack \<open>[/home, /about, /contact]\<close>, index 2.\<close>

definition demo_three :: HistoryService where
  "demo_three = observeAll [''/about'', ''/contact''] demo_fresh"

definition demo_known :: HistoryService where
  "demo_known = demo_three\<lparr>location := ''/about''\<rparr>"

definition demo_unknown :: HistoryService where
  "demo_unknown = demo_three\<lparr>location := ''/x''\<rparr>"

text \<open>Stack \<open>[/a, /b, /c]\<close> with the index moved to 0 by a \<open>popstate\<close> at \<open>/a\<close>.\<close>

definition demo_back :: HistoryService where
  "demo_back = handleBrowserHistoryChange
     ((observeAll [''/b'', ''/c''] (new_HistoryService ''/a'' None))\<lparr>location := ''/a''\<rparr>)"

text \<open>\<open>initialize("/x")\<close> has been called and awaits the router.\<close>

definition demo_init :: HistoryService where
  "demo_init = fst (initialize_start (Some ''/x'') demo_three)"

text \<open>An empty service (no auto-initialization) with \<open>maxHistoryLength = 2\<close>.\<close>

definition demo_small :: HistoryService where
  "demo_small = new_HistoryService ''/a''
     (Some \<lparr>opt_maxHistoryLength = Some 2, opt_debugMode = None,
            opt_autoInitialize = Some False, opt_defaultRoute = None\<rparr>)"

text \<open>An empty service (no auto-initialization) with the default bound of 50.\<close>

definition demo_empty :: HistoryService where
  "demo_empty = new_HistoryService ''/a''
     (Some \<lparr>opt_maxHistoryLength = None, opt_debugMode = None,
            opt_autoInitialize = Some False, opt_defaultRoute = None\<rparr>)"

text \<open>At \<open>[/home, /about]\<close>: \<open>goBack()\<close> awaits the router, \<open>goForward()\<close> is queued behind it with index 1.\<close>

definition demo_queued :: Runtime where
  "demo_queued = run (boot demo_fresh) [UrlChange ''/about'', CallGoBack, CallGoForward]"

text \<open>The same, after which the echo of \<open>goBack()\<close> arrives, the history is cleared and \<open>/e\<close> is visited.\<close>

definition demo_stale :: Runtime where
  "demo_stale = run (boot demo_fresh)
     [UrlChange ''/about'', CallGoBack, CallGoForward, UrlChange ''/home'',
      CallClearHistory, UrlChange ''/e'']"

text \<open>At \<open>[/home, /about, /contact]\<close>: \<open>initialize("/x")\<close> awaits the router.\<close>

definition demo_initializing :: Runtime where
  "demo_initializing = run (boot demo_three) [CallInitialize (Some ''/x'')]"

text \<open>Three racing requests; the first has settled and resumed the other two, the second has settled.\<close>

definition demo_race :: Runtime where
  "demo_race = run (boot demo_three)
     [CallGoBack, CallGoBack, CallGoForward, RouterSettles 0 (Resolved True),
      RouterSettles 1 (Resolved False)]"

text \<open>At \<open>[/home, /about, /contact]\<close>: \<open>goBack()\<close> awaits the router.\<close>

definition demo_inflight :: Runtime where
  "demo_inflight = run (boot demo_three) [CallGoBack]"

text \<open>The router has refused that \<open>goBack()\<close>: index 1, location still \<open>/contact\<close>.\<close>

definition demo_unsynced :: Runtime where
  "demo_unsynced = run (boot demo_three) [CallGoBack, RouterSettles 0 (Resolved False)]"

text \<open>The stale request of \<open>demo_stale\<close> has run and the router has settled it: stack \<open>[/e]\<close>, index 1.\<close>

definition demo_overrun :: Runtime where
  "demo_overrun = run demo_stale [RouterSettles 0 (Resolved True), RouterSettles 1 (Resolved True)]"

section \<open>Properties\<close>

subsection \<open>\<open>indexOf\<close>\<close>

lemma indexOf_ge: "- 1 \<le> indexOf xs x"
  by (induction xs) (auto simp: Let_def)

lemma indexOf_absent: "indexOf xs x = - 1 \<longleftrightarrow> x \<notin> set xs"
proof (induction xs)
  case Nil
  show ?case by simp
next
  case (Cons y ys)
  have "- 1 \<le> indexOf ys x" by (rule indexOf_ge)
  with Cons show ?case by (auto simp: Let_def)
qed

lemma indexOf_first:
  "x \<in> set xs \<Longrightarrow>
     0 \<le> indexOf xs x \<and> indexOf xs x < int (length xs) \<and> xs ! nat (indexOf xs x) = x
     \<and> (\<forall>j < nat (indexOf xs x). xs ! j \<noteq> x)"
proof (induction xs)
  case Nil
  then show ?case by simp
next
  case (Cons y ys)
  show ?case
  proof (cases "y = x")
    case True
    then show ?thesis by simp
  next
    case False
    with Cons.prems have mem: "x \<in> set ys" by simp
    from Cons.IH [OF mem] have ih: "0 \<le> indexOf ys x" "indexOf ys x < int (length ys)"
      "ys ! nat (indexOf ys x) = x" "\<forall>j < nat (indexOf ys x). ys ! j \<noteq> x" by simp_all
    have eq: "indexOf (y # ys) x = indexOf ys x + 1"
      using False ih(1) by (simp add: Let_def)
    have n: "nat (indexOf ys x + 1) = Suc (nat (indexOf ys x))"
      using ih(1) by simp
    have "\<forall>j < Suc (nat (indexOf ys x)). (y # ys) ! j \<noteq> x"
    proof (intro allI impI)
      fix j assume "j < Suc (nat (indexOf ys x))"
      then show "(y # ys) ! j \<noteq> x"
        using False ih(4) by (cases j) auto
    qed
    then show ?thesis
      using ih eq n by simp
  qed
qed

subsection \<open>What each handler writes\<close>

lemma addToHistory_paths:
  "priv_paths (addToHistory p s) =
     drop (nat (int (length (priv_paths s)) + 1 - maxHistoryLength (config s))) (priv_paths s @ [p])"
  by (simp add: addToHistory_def Let_def splice_front_def min_def max_def ac_simps)

lemma addToHistory_index:
  "priv_currentIndex (addToHistory p s) =
     (if int (length (priv_paths s)) + 1 > maxHistoryLength (config s)
      then max 0 (priv_currentIndex s - (int (length (priv_paths s)) + 1 - maxHistoryLength (config s)))
      else priv_currentIndex s)"
  by (simp add: addToHistory_def Let_def ac_simps)

lemma addToHistory_frame:
  "config (addToHistory p s) = config s"
  "location (addToHistory p s) = location s"
  "navigationPromise (addToHistory p s) = navigationPromise s"
  "isInternalNavigation (addToHistory p s) = isInternalNavigation s"
  "previousPath (addToHistory p s) = previousPath s"
  "isInitialized (addToHistory p s) = isInitialized s"
  "priv_isNavigating (addToHistory p s) = priv_isNavigating s"
  "navigationState_log (addToHistory p s) = navigationState_log s"
  "navigationError_log (addToHistory p s) = navigationError_log s"
  by (simp_all add: addToHistory_def Let_def)

lemma updateNavigationState_frame:
  "config (updateNavigationState s) = config s"
  "location (updateNavigationState s) = location s"
  "navigationPromise (updateNavigationState s) = navigationPromise s"
  "isInternalNavigation (updateNavigationState s) = isInternalNavigation s"
  "previousPath (updateNavigationState s) = previousPath s"
  "isInitialized (updateNavigationState s) = isInitialized s"
  "priv_paths (updateNavigationState s) = priv_paths s"
  "priv_currentIndex (updateNavigationState s) = priv_currentIndex s"
  "priv_isNavigating (updateNavigationState s) = priv_isNavigating s"
  "navigationError_log (updateNavigationState s) = navigationError_log s"
  by (simp_all add: updateNavigationState_def)

lemma emitError_frame:
  "config (emitError t m e s) = config s"
  "location (emitError t m e s) = location s"
  "navigationPromise (emitError t m e s) = navigationPromise s"
  "isInternalNavigation (emitError t m e s) = isInternalNavigation s"
  "previousPath (emitError t m e s) = previousPath s"
  "isInitialized (emitError t m e s) = isInitialized s"
  "priv_paths (emitError t m e s) = priv_paths s"
  "priv_currentIndex (emitError t m e s) = priv_currentIndex s"
  "priv_isNavigating (emitError t m e s) = priv_isNavigating s"
  "navigationState_log (emitError t m e s) = navigationState_log s"
  by (simp_all add: emitError_def)

lemma handleExternalNavigation_paths:
  "priv_paths (handleExternalNavigation p s) =
     drop (nat (int (length (kept s)) + 1 - maxHistoryLength (config s))) (kept s @ [p])"
  by (simp add: handleExternalNavigation_def Let_def kept_def addToHistory_paths
      addToHistory_frame updateNavigationState_frame)

lemma handleExternalNavigation_index:
  "priv_currentIndex (handleExternalNavigation p s) =
     int (length (priv_paths (handleExternalNavigation p s))) - 1"
  by (simp add: handleExternalNavigation_def Let_def updateNavigationState_frame)

lemma handleExternalNavigation_frame:
  "config (handleExternalNavigation p s) = config s"
  "location (handleExternalNavigation p s) = location s"
  "navigationPromise (handleExternalNavigation p s) = navigationPromise s"
  "isInternalNavigation (handleExternalNavigation p s) = isInternalNavigation s"
  "previousPath (handleExternalNavigation p s) = previousPath s"
  "isInitialized (handleExternalNavigation p s) = isInitialized s"
  "priv_isNavigating (handleExternalNavigation p s) = priv_isNavigating s"
  "navigationError_log (handleExternalNavigation p s) = navigationError_log s"
  by (simp_all add: handleExternalNavigation_def Let_def updateNavigationState_frame addToHistory_frame)

lemma performNavigation_start_fields:
  "priv_paths (fst (performNavigation_start index s)) = priv_paths s"
  "priv_currentIndex (fst (performNavigation_start index s)) = index"
  "priv_isNavigating (fst (performNavigation_start index s))"
  "isInternalNavigation (fst (performNavigation_start index s))"
  "navigationError_log (fst (performNavigation_start index s)) = navigationError_log s"
  "navigationPromise (fst (performNavigation_start index s)) = navigationPromise s"
  "config (fst (performNavigation_start index s)) = config s"
  "location (fst (performNavigation_start index s)) = location s"
  "previousPath (fst (performNavigation_start index s)) = previousPath s"
  "snd (performNavigation_start index s) = js_index (priv_paths s) index"
  by (simp_all add: performNavigation_start_def Let_def updateNavigationState_frame)

lemma performNavigation_settle_failure:
  assumes "r \<noteq> Resolved True"
  shows "snd (performNavigation_settle t r s) = False"
    and "navigationError_log (fst (performNavigation_settle t r s)) =
           navigationError_log s @
             [\<lparr>err_type = NAVIGATION_FAILED,
               message = (case r of Resolved b \<Rightarrow> ''Failed to navigate to '' @ show_path t
                          | Rejected e \<Rightarrow> ''Navigation error: '' @ e),
               originalError = (case r of Resolved b \<Rightarrow> None | Rejected e \<Rightarrow> Some e)\<rparr>]"
    and "\<not> priv_isNavigating (fst (performNavigation_settle t r s))"
    and "\<not> isInternalNavigation (fst (performNavigation_settle t r s))"
    and "navigationPromise (fst (performNavigation_settle t r s)) = None"
    and "priv_currentIndex (fst (performNavigation_settle t r s)) = priv_currentIndex s"
    and "priv_paths (fst (performNavigation_settle t r s)) = priv_paths s"
  using assms
  by (cases r; simp add: performNavigation_settle_def emitError_def)+

subsection \<open>A run of external location changes\<close>

lemma most_recent_append:
  "most_recent m (most_recent m xs @ ys) = most_recent m (xs @ ys)"
proof (cases "int (length xs) \<le> m")
  case True
  then show ?thesis by (simp add: most_recent_def)
next
  case False
  show ?thesis
  proof (cases "0 \<le> m")
    case True
    with False have "nat (int (length xs) - m) \<le> length xs"
      and "int (length xs - nat (int (length xs) - m)) = m"
      by simp_all
    moreover have "nat (int (length xs) + int (length ys) - m) =
        nat (int (length xs) - m) + length ys"
      using False True by simp
    ultimately show ?thesis
      using False True by (simp add: most_recent_def ac_simps)
  next
    case neg: False
    then show ?thesis by (simp add: most_recent_def)
  qed
qed

lemma most_recent_all: "int (length xs) \<le> m \<Longrightarrow> most_recent m xs = xs"
  by (simp add: most_recent_def)

lemma handleExternalNavigation_recent:
  "priv_paths (handleExternalNavigation p s) =
     most_recent (maxHistoryLength (config s)) (kept s @ [p])"
  by (simp add: handleExternalNavigation_paths most_recent_def ac_simps)

lemma snapshot_log [simp]:
  "snapshot (s\<lparr>navigationState_log := l\<rparr>) = snapshot s"
  by (simp add: snapshot_def get_paths_def get_canGoBack_def get_canGoForward_def
      get_currentPath_def get_historyLength_def)

lemma updateNavigationState_emits:
  "get_currentState (updateNavigationState s) = snapshot (updateNavigationState s)"
  by (simp add: updateNavigationState_def get_currentState_def)

lemma handleExternalNavigation_emits:
  "get_currentState (handleExternalNavigation p s) = snapshot (handleExternalNavigation p s)"
  by (simp add: handleExternalNavigation_def Let_def updateNavigationState_emits)

lemma kept_at_end:
  "priv_currentIndex s = int (length (priv_paths s)) - 1 \<Longrightarrow> kept s = priv_paths s"
  by (simp add: kept_def)

lemma kept_empty: "priv_paths s = [] \<Longrightarrow> kept s = []"
  by (simp add: kept_def splice_from_def)

lemma kept_location [simp]: "kept (s\<lparr>location := l\<rparr>) = kept s"
  and kept_previousPath [simp]: "kept (s\<lparr>previousPath := q\<rparr>) = kept s"
  by (simp_all add: kept_def)

text \<open>One observed location change that is neither a repetition nor an echo.\<close>

lemma observe_external:
  assumes "\<not> isInternalNavigation s" and "previousPath s \<noteq> Some p"
  shows "locationListener p (s\<lparr>location := p\<rparr>) =
           handleExternalNavigation p (s\<lparr>location := p, previousPath := Some p\<rparr>)"
  using assms by (simp add: locationListener_def Let_def)

lemma observeAll_Cons:
  "observeAll (p # ps) s = observeAll ps (locationListener p (s\<lparr>location := p\<rparr>))"
  by (simp add: observeAll_def)

lemma observeAll_Nil: "observeAll [] s = s"
  by (simp add: observeAll_def)

lemma observeAll_external:
  assumes "\<not> isInternalNavigation s" and "ps \<noteq> []" and "previousPath s \<noteq> Some (hd ps)"
    and "distinct_adj ps"
  shows "priv_paths (observeAll ps s) = most_recent (maxHistoryLength (config s)) (kept s @ ps)
    \<and> priv_currentIndex (observeAll ps s) = int (length (priv_paths (observeAll ps s))) - 1
    \<and> location (observeAll ps s) = last ps
    \<and> previousPath (observeAll ps s) = Some (last ps)
    \<and> \<not> isInternalNavigation (observeAll ps s)
    \<and> config (observeAll ps s) = config s
    \<and> get_currentState (observeAll ps s) = snapshot (observeAll ps s)"
  using assms
proof (induction ps arbitrary: s)
  case Nil
  then show ?case by simp
next
  case (Cons p qs)
  let ?t = "locationListener p (s\<lparr>location := p\<rparr>)"
  from Cons.prems have np: "previousPath s \<noteq> Some p" by simp
  have t: "?t = handleExternalNavigation p (s\<lparr>location := p, previousPath := Some p\<rparr>)"
    by (rule observe_external [OF Cons.prems(1) np])
  have tp: "priv_paths ?t = most_recent (maxHistoryLength (config s)) (kept s @ [p])"
    by (simp add: t handleExternalNavigation_recent)
  have ti: "priv_currentIndex ?t = int (length (priv_paths ?t)) - 1"
    by (simp add: t handleExternalNavigation_index)
  have tf: "location ?t = p" "previousPath ?t = Some p" "\<not> isInternalNavigation ?t"
    "config ?t = config s"
    using Cons.prems(1) by (simp_all add: t handleExternalNavigation_frame)
  have te: "get_currentState ?t = snapshot ?t"
    by (simp add: t handleExternalNavigation_emits)
  show ?case
  proof (cases qs)
    case Nil
    then show ?thesis
      using tp ti tf te by (simp add: observeAll_Cons observeAll_Nil)
  next
    case (Cons q rs)
    with Cons.prems have d: "p \<noteq> hd qs" "distinct_adj qs" "qs \<noteq> []" by simp_all
    have "previousPath ?t \<noteq> Some (hd qs)" using d tf by simp
    from Cons.IH [OF tf(3) d(3) this d(2)]
    have ih: "priv_paths (observeAll qs ?t) =
                most_recent (maxHistoryLength (config ?t)) (kept ?t @ qs)"
      "priv_currentIndex (observeAll qs ?t) = int (length (priv_paths (observeAll qs ?t))) - 1"
      "location (observeAll qs ?t) = last qs"
      "previousPath (observeAll qs ?t) = Some (last qs)"
      "\<not> isInternalNavigation (observeAll qs ?t)"
      "config (observeAll qs ?t) = config ?t"
      "get_currentState (observeAll qs ?t) = snapshot (observeAll qs ?t)"
      by simp_all
    have k: "kept ?t = priv_paths ?t" by (rule kept_at_end [OF ti])
    have "priv_paths (observeAll qs ?t) =
            most_recent (maxHistoryLength (config s)) (kept s @ p # qs)"
      using most_recent_append [of "maxHistoryLength (config s)" "kept s @ [p]" qs]
      by (simp add: ih(1) k tp tf)
    then show ?thesis
      using ih d tf by (simp add: observeAll_Cons)
  qed
qed


lemma distinct_imp_distinct_adj: "distinct xs \<Longrightarrow> distinct_adj xs"
proof (induction xs)
  case Nil
  show ?case by simp
next
  case (Cons x xs)
  then show ?case by (cases xs) (simp_all add: distinct_adj_Cons)
qed

subsection \<open>The index stays inside the stack\<close>

lemma index_in_range_log [simp]:
  "index_in_range (s\<lparr>navigationState_log := l\<rparr>) = index_in_range s"
  "index_in_range (s\<lparr>navigationError_log := e\<rparr>) = index_in_range s"
  "index_in_range (s\<lparr>location := p\<rparr>) = index_in_range s"
  "index_in_range (s\<lparr>previousPath := q\<rparr>) = index_in_range s"
  "index_in_range (s\<lparr>isInternalNavigation := b\<rparr>) = index_in_range s"
  "index_in_range (s\<lparr>priv_isNavigating := b\<rparr>) = index_in_range s"
  "index_in_range (s\<lparr>navigationPromise := n\<rparr>) = index_in_range s"
  "index_in_range (s\<lparr>isInitialized := b\<rparr>) = index_in_range s"
  by (simp_all add: index_in_range_def)

lemma index_in_range_update [simp]:
  "index_in_range (updateNavigationState s) = index_in_range s"
  "index_in_range (emitError t m e s) = index_in_range s"
  by (simp_all add: updateNavigationState_def emitError_def)

lemma index_in_range_clearHistory: "index_in_range (clearHistory s)"
  by (simp add: clearHistory_def) (simp add: index_in_range_def)

lemma index_in_range_addToHistory:
  assumes "index_in_range s" and "0 < maxHistoryLength (config s)"
  shows "index_in_range (addToHistory p s)"
proof -
  have "priv_paths (addToHistory p s) \<noteq> []"
    using assms(2) by (simp add: addToHistory_paths)
  moreover have "0 \<le> priv_currentIndex (addToHistory p s)"
    using assms(1) by (simp add: addToHistory_index index_in_range_def split: if_splits)
  moreover have "priv_currentIndex (addToHistory p s) < int (length (priv_paths (addToHistory p s)))"
    using assms by (simp add: addToHistory_index addToHistory_paths index_in_range_def split: if_splits)
  ultimately show ?thesis by (simp add: index_in_range_def)
qed

lemma index_in_range_handleExternalNavigation:
  assumes "0 < maxHistoryLength (config s)"
  shows "index_in_range (handleExternalNavigation p s)"
proof -
  have "priv_paths (handleExternalNavigation p s) \<noteq> []"
    using assms by (simp add: handleExternalNavigation_paths)
  then show ?thesis
    by (simp add: index_in_range_def handleExternalNavigation_index)
qed

lemma index_in_range_handleInternalNavigation:
  "index_in_range (handleInternalNavigation s) = index_in_range s"
  by (simp add: handleInternalNavigation_def)

lemma index_in_range_handleBrowserHistoryChange:
  assumes "0 < maxHistoryLength (config s)"
  shows "index_in_range (handleBrowserHistoryChange s)"
proof (cases "get_currentPath s \<in> set (priv_paths s)")
  case True
  from indexOf_first [OF True] True have "index_in_range (s\<lparr>priv_currentIndex := indexOf (priv_paths s) (get_currentPath s)\<rparr>)"
    by (auto simp: index_in_range_def)
  moreover from True have "indexOf (priv_paths s) (get_currentPath s) \<noteq> - 1"
    by (simp add: indexOf_absent)
  ultimately show ?thesis
    by (simp add: handleBrowserHistoryChange_def Let_def)
next
  case False
  then have "indexOf (priv_paths s) (get_currentPath s) = - 1"
    by (simp add: indexOf_absent)
  then show ?thesis
    using index_in_range_handleExternalNavigation [OF assms]
    by (simp add: handleBrowserHistoryChange_def Let_def)
qed

lemma index_in_range_locationListener:
  assumes "index_in_range s" and "0 < maxHistoryLength (config s)"
  shows "index_in_range (locationListener p s)"
  using assms index_in_range_handleExternalNavigation [of "s\<lparr>previousPath := Some p\<rparr>" p]
  by (simp add: locationListener_def Let_def index_in_range_handleInternalNavigation)

lemma index_in_range_initialize_start:
  "index_in_range (fst (initialize_start path s)) = index_in_range s"
  by (simp add: initialize_start_def Let_def)

lemma index_in_range_initialize_settle:
  assumes "index_in_range s" and "0 < maxHistoryLength (config s)"
  shows "index_in_range (fst (initialize_settle ip r s))"
proof (cases "r = Resolved True")
  case True
  have "priv_paths (addToHistory ip (s\<lparr>priv_paths := []\<rparr>)) = [ip]"
    using assms(2) by (simp add: addToHistory_paths)
  then have "index_in_range ((addToHistory ip (s\<lparr>priv_paths := []\<rparr>))\<lparr>priv_currentIndex := 0\<rparr>)"
    by (simp add: index_in_range_def)
  then show ?thesis
    using True by (simp add: initialize_settle_def Let_def)
next
  case False
  then show ?thesis
    using assms(1) by (cases r) (simp_all add: initialize_settle_def Let_def)
qed

lemma index_in_range_performNavigation_settle:
  "index_in_range (fst (performNavigation_settle t r s)) = index_in_range s"
  by (cases r) (simp_all add: performNavigation_settle_def)

lemma index_in_range_proceed:
  assumes "0 \<le> i" and "i < int (length (priv_paths s))"
  shows "index_in_range (fst (navigateToIndex_proceed pid i s))"
  using assms
  by (auto simp: navigateToIndex_proceed_def performNavigation_start_def Let_def
      updateNavigationState_def index_in_range_def)

lemma index_in_range_navigateToIndex:
  assumes "index_in_range s"
  shows "index_in_range (fst (navigateToIndex pid i s))"
  using assms index_in_range_proceed [of i s pid]
  by (simp add: navigateToIndex_def split: option.splits)

lemma index_in_range_goBack:
  "index_in_range s \<Longrightarrow> index_in_range (fst (goBack pid s))"
  by (simp add: goBack_def index_in_range_navigateToIndex)

lemma index_in_range_goForward:
  "index_in_range s \<Longrightarrow> index_in_range (fst (goForward pid s))"
  by (simp add: goForward_def index_in_range_navigateToIndex)

lemma index_in_range_navigateToPath:
  "index_in_range s \<Longrightarrow> index_in_range (fst (navigateToPath pid p s))"
  by (simp add: navigateToPath_def Let_def index_in_range_navigateToIndex)


lemma config_kept:
  "config (handleInternalNavigation s) = config s"
  "config (handleBrowserHistoryChange s) = config s"
  "config (locationListener p s) = config s"
  "config (clearHistory s) = config s"
  "config (fst (initialize_start path s)) = config s"
  "config (fst (initialize_settle ip r s)) = config s"
  "config (fst (performNavigation_settle t r s)) = config s"
  "config (fst (navigateToIndex_proceed pid i s)) = config s"
  "config (fst (navigateToIndex pid i s)) = config s"
  "config (fst (goBack pid s)) = config s"
  "config (fst (goForward pid s)) = config s"
  "config (fst (navigateToPath pid p s)) = config s"
proof -
  show "config (handleInternalNavigation s) = config s"
    by (simp add: handleInternalNavigation_def updateNavigationState_frame)
  show "config (handleBrowserHistoryChange s) = config s"
    by (simp add: handleBrowserHistoryChange_def Let_def updateNavigationState_frame
        handleExternalNavigation_frame)
  show "config (locationListener p s) = config s"
    by (simp add: locationListener_def Let_def handleInternalNavigation_def
        updateNavigationState_frame handleExternalNavigation_frame)
  show "config (clearHistory s) = config s"
    by (simp add: clearHistory_def updateNavigationState_frame)
  show "config (fst (initialize_start path s)) = config s"
    by (simp add: initialize_start_def Let_def updateNavigationState_frame)
  show "config (fst (initialize_settle ip r s)) = config s"
    by (cases r) (simp_all add: initialize_settle_def Let_def updateNavigationState_frame
        addToHistory_frame emitError_frame)
  show "config (fst (performNavigation_settle t r s)) = config s"
    by (cases r) (simp_all add: performNavigation_settle_def emitError_frame)
  show p: "config (fst (navigateToIndex_proceed pid i s)) = config s" for pid i
    by (simp add: navigateToIndex_proceed_def performNavigation_start_def Let_def
        updateNavigationState_frame)
  show n: "config (fst (navigateToIndex pid i s)) = config s" for pid i
    by (simp add: navigateToIndex_def p emitError_frame split: option.splits)
  show "config (fst (goBack pid s)) = config s"
    by (simp add: goBack_def n emitError_frame)
  show "config (fst (goForward pid s)) = config s"
    by (simp add: goForward_def n emitError_frame)
  show "config (fst (navigateToPath pid p s)) = config s"
    by (simp add: navigateToPath_def Let_def n emitError_frame)
qed

lemma navigateToIndex_await:
  assumes "snd (navigateToIndex pid i s) = AwaitPromise a j"
  shows "j = i \<and> navigationPromise s = Some a \<and> 0 \<le> i \<and> i < int (length (priv_paths s))
    \<and> fst (navigateToIndex pid i s) =
        emitError CONCURRENT_NAVIGATION ''Navigation already in progress, waiting...'' None s"
  using assms
  by (auto simp: navigateToIndex_def navigateToIndex_proceed_def performNavigation_start_def
      Let_def split: if_splits option.splits)

lemma call_await:
  "snd (goBack pid s) = AwaitPromise a j \<Longrightarrow>
     0 \<le> j \<and> j < int (length (priv_paths (fst (goBack pid s))))"
  "snd (goForward pid s) = AwaitPromise a j \<Longrightarrow>
     0 \<le> j \<and> j < int (length (priv_paths (fst (goForward pid s))))"
  "snd (navigateToPath pid p s) = AwaitPromise a j \<Longrightarrow>
     0 \<le> j \<and> j < int (length (priv_paths (fst (navigateToPath pid p s))))"
proof -
  assume "snd (goBack pid s) = AwaitPromise a j"
  then have g: "\<not> \<not> get_canGoBack s" "snd (navigateToIndex pid (priv_currentIndex s - 1) s) = AwaitPromise a j"
    by (auto simp: goBack_def split: if_splits)
  from navigateToIndex_await [OF g(2)] g(1)
  show "0 \<le> j \<and> j < int (length (priv_paths (fst (goBack pid s))))"
    by (simp add: goBack_def emitError_frame)
next
  assume "snd (goForward pid s) = AwaitPromise a j"
  then have g: "\<not> \<not> get_canGoForward s" "snd (navigateToIndex pid (priv_currentIndex s + 1) s) = AwaitPromise a j"
    by (auto simp: goForward_def split: if_splits)
  from navigateToIndex_await [OF g(2)] g(1)
  show "0 \<le> j \<and> j < int (length (priv_paths (fst (goForward pid s))))"
    by (simp add: goForward_def emitError_frame)
next
  assume "snd (navigateToPath pid p s) = AwaitPromise a j"
  then have g: "indexOf (priv_paths s) p \<noteq> - 1" "snd (navigateToIndex pid (indexOf (priv_paths s) p) s) = AwaitPromise a j"
    by (auto simp: navigateToPath_def Let_def split: if_splits)
  from navigateToIndex_await [OF g(2)] g(1)
  show "0 \<le> j \<and> j < int (length (priv_paths (fst (navigateToPath pid p s))))"
    by (simp add: navigateToPath_def Let_def emitError_frame)
qed

lemma resume_eq:
  "resume w (pid, a, i) =
     w\<lparr>service := fst (navigateToIndex_proceed pid i (service w)),
       navigating := navigating w @ [(pid, js_index (priv_paths (service w)) i)]\<rparr>"
  by (simp add: resume_def navigateToIndex_proceed_def performNavigation_start_def Let_def)

lemma proceed_paths:
  "priv_paths (fst (navigateToIndex_proceed pid i s)) = priv_paths s"
  by (simp add: navigateToIndex_proceed_def performNavigation_start_def Let_def
      updateNavigationState_frame)

lemma foldl_resume_in_range:
  assumes "index_in_range (service w)"
    and "\<forall>q \<in> set qs. 0 \<le> snd (snd q) \<and> snd (snd q) < int (length (priv_paths (service w)))"
  shows "index_in_range (service (foldl resume w qs))"
  using assms
proof (induction qs arbitrary: w)
  case Nil
  then show ?case by simp
next
  case (Cons q qs)
  obtain pid a i where q: "q = (pid, a, i)" by (cases q)
  from Cons.prems q have r: "0 \<le> i" "i < int (length (priv_paths (service w)))" by simp_all
  have "index_in_range (service (resume w q))"
    using index_in_range_proceed [OF r] by (simp add: q resume_eq)
  moreover have "priv_paths (service (resume w q)) = priv_paths (service w)"
    by (simp add: q resume_eq proceed_paths)
  ultimately show ?case
    using Cons.IH [of "resume w q"] Cons.prems(2) by simp
qed

lemma foldl_resume_config:
  "config (service (foldl resume w qs)) = config (service w)"
proof (induction qs arbitrary: w)
  case Nil
  show ?case by simp
next
  case (Cons q qs)
  obtain pid a i where q: "q = (pid, a, i)" by (cases q)
  show ?case by (simp add: Cons.IH q resume_eq config_kept)
qed

lemma record_call_service:
  assumes "\<forall>a j. snd r = AwaitPromise a j \<longrightarrow> 0 \<le> j \<and> j < int (length (priv_paths (fst r)))"
    and "index_in_range (fst r)"
  shows "index_in_range (service (record_call w r))"
    and "config (service (record_call w r)) = config (fst r)"
proof -
  show "index_in_range (service (record_call w r))"
  proof (cases "snd r")
    case (Returned b)
    then show ?thesis using assms(2) by (simp add: record_call_def Let_def)
  next
    case (AwaitNavigator t)
    then show ?thesis using assms(2) by (simp add: record_call_def Let_def)
  next
    case (AwaitPromise a j)
    with assms(1) have "0 \<le> j" "j < int (length (priv_paths (fst r)))" by simp_all
    from index_in_range_proceed [OF this]
    show ?thesis using assms(2) AwaitPromise by (simp add: record_call_def Let_def resume_eq)
  qed
  show "config (service (record_call w r)) = config (fst r)"
    by (cases "snd r") (simp_all add: record_call_def Let_def resume_eq config_kept)
qed


lemma index_in_range_new: "index_in_range (new_HistoryService loc c)"
  by (simp add: new_HistoryService_def Let_def initializeWithCurrentRoute_def
      addToHistory_def splice_front_def index_in_range_def updateNavigationState_def)

subsection \<open>Suspended calls\<close>

lemma navigationPromise_kept:
  "navigationPromise (locationListener p s) = navigationPromise s"
  "navigationPromise (handleBrowserHistoryChange s) = navigationPromise s"
  "navigationPromise (clearHistory s) = navigationPromise s"
  by (simp_all add: locationListener_def handleBrowserHistoryChange_def clearHistory_def Let_def
      handleInternalNavigation_def updateNavigationState_frame handleExternalNavigation_frame)

lemma passive_step:
  assumes "is_passive e"
  shows "navigating (step w e) = navigating w \<and> queued (step w e) = queued w
    \<and> settled (step w e) = settled w \<and> nextId (step w e) = nextId w
    \<and> initializing (step w e) = initializing w
    \<and> navigationPromise (service (step w e)) = navigationPromise (service w)"
  using assms by (cases e) (simp_all add: navigationPromise_kept)

lemma run_Cons: "run w (e # es) = run (step w e) es"
  and run_Nil: "run w [] = w"
  by (simp_all add: run_def)

lemma passive_run:
  assumes "\<forall>e \<in> set es. is_passive e"
  shows "navigating (run w es) = navigating w \<and> queued (run w es) = queued w
    \<and> settled (run w es) = settled w \<and> nextId (run w es) = nextId w
    \<and> initializing (run w es) = initializing w
    \<and> navigationPromise (service (run w es)) = navigationPromise (service w)"
  using assms
proof (induction es arbitrary: w)
  case Nil
  show ?case by (simp add: run_Nil)
next
  case (Cons e es)
  then have "is_passive e" and "\<forall>x \<in> set es. is_passive x" by simp_all
  from passive_step [OF this(1), of w] Cons.IH [OF this(2), of "step w e"]
  show ?case by (simp add: run_Cons)
qed

lemma settle_result: "snd (performNavigation_settle t r s) = (r = Resolved True)"
  by (cases r) (auto simp: performNavigation_settle_def)

lemma proceed_fields:
  "priv_currentIndex (fst (navigateToIndex_proceed pid i s)) = i"
  "navigationPromise (fst (navigateToIndex_proceed pid i s)) = Some pid"
  "isInternalNavigation (fst (navigateToIndex_proceed pid i s))"
  "priv_isNavigating (fst (navigateToIndex_proceed pid i s))"
  by (simp_all add: navigateToIndex_proceed_def performNavigation_start_def Let_def
      updateNavigationState_frame)

lemma foldl_resume_frame:
  "settled (foldl resume w qs) = settled w \<and> queued (foldl resume w qs) = queued w
   \<and> nextId (foldl resume w qs) = nextId w
   \<and> priv_paths (service (foldl resume w qs)) = priv_paths (service w)
   \<and> fst ` set (navigating (foldl resume w qs)) = fst ` set (navigating w) \<union> fst ` set qs"
proof (induction qs arbitrary: w)
  case Nil
  show ?case by simp
next
  case (Cons q qs)
  obtain pid a i where q: "q = (pid, a, i)" by (cases q)
  show ?case
    by (simp add: Cons.IH q resume_eq proceed_paths)
qed

lemma settle_step:
  assumes "map_of (navigating w) a = Some t"
  shows "step w (RouterSettles a r) =
     foldl resume
       (w\<lparr>service := fst (performNavigation_settle t r (service w)),
          navigating := filter (\<lambda>c. fst c \<noteq> a) (navigating w),
          queued := filter (\<lambda>q. fst (snd q) \<noteq> a) (queued w),
          settled := settled w @ [(a, r = Resolved True)]\<rparr>)
       (filter (\<lambda>q. fst (snd q) = a) (queued w))"
  using assms by (simp add: router_settles_def split_def Let_def settle_result)

lemma settle_paths:
  "priv_paths (fst (performNavigation_settle t r s)) = priv_paths s"
  by (cases r) (simp_all add: performNavigation_settle_def emitError_frame)

lemma requested_call:
  assumes "requested_index e s = Some i" and "service w = s"
  shows "step w e = record_call w (navigateToIndex (nextId w) i s)"
  using assms
  by (cases e) (auto simp: goBack_def goForward_def navigateToPath_def Let_def split: if_splits)


lemma map_of_snoc_fresh:
  "n \<notin> fst ` set xs \<Longrightarrow> map_of (xs @ [(n, v)]) n = Some v"
  by (simp add: map_add_def map_of_eq_None_iff [THEN iffD2])

subsection \<open>A navigation that runs alone\<close>

lemma free_call:
  assumes "navigationPromise (service u) = None" and "requested_index e (service u) = Some j"
    and "0 \<le> j" and "j < int (length (priv_paths (service u)))"
  shows "service (step u e) = fst (navigateToIndex_proceed (nextId u) j (service u))"
    and "navigating (step u e) = navigating u @ [(nextId u, getPathAtIndex j (service u))]"
    and "queued (step u e) = queued u" and "settled (step u e) = settled u"
    and "nextId (step u e) = Suc (nextId u)"
proof -
  from assms have "navigateToIndex (nextId u) j (service u) =
      navigateToIndex_proceed (nextId u) j (service u)"
    by (simp add: navigateToIndex_def)
  with requested_call [OF assms(2) refl]
  have e: "step u e = record_call u (navigateToIndex_proceed (nextId u) j (service u))"
    by simp
  show "service (step u e) = fst (navigateToIndex_proceed (nextId u) j (service u))"
    and "navigating (step u e) = navigating u @ [(nextId u, getPathAtIndex j (service u))]"
    and "queued (step u e) = queued u" and "settled (step u e) = settled u"
    and "nextId (step u e) = Suc (nextId u)"
    by (simp_all add: e record_call_def Let_def navigateToIndex_proceed_def
        performNavigation_start_def updateNavigationState_frame getPathAtIndex_def)
qed

lemma proceed_frame:
  "location (fst (navigateToIndex_proceed pid i s)) = location s"
  "config (fst (navigateToIndex_proceed pid i s)) = config s"
  by (simp_all add: navigateToIndex_proceed_def performNavigation_start_def Let_def
      updateNavigationState_frame)

lemma echo_step:
  assumes "isInternalNavigation (service u)"
  shows "priv_paths (service (step u (UrlChange p))) = priv_paths (service u)"
    and "priv_currentIndex (service (step u (UrlChange p))) = priv_currentIndex (service u)"
    and "navigationPromise (service (step u (UrlChange p))) = navigationPromise (service u)"
    and "config (service (step u (UrlChange p))) = config (service u)"
    and "location (service (step u (UrlChange p))) = p"
    and "navigating (step u (UrlChange p)) = navigating u"
    and "queued (step u (UrlChange p)) = queued u"
    and "settled (step u (UrlChange p)) = settled u"
    and "nextId (step u (UrlChange p)) = nextId u"
  using assms
  by (simp_all add: locationListener_def Let_def handleInternalNavigation_def
      updateNavigationState_frame)

lemma settle_alone:
  assumes "navigating u = [(n, t)]" and "queued u = []"
  shows "service (step u (RouterSettles n (Resolved True))) =
           (service u)\<lparr>navigationPromise := None\<rparr>"
    and "navigating (step u (RouterSettles n (Resolved True))) = []"
    and "queued (step u (RouterSettles n (Resolved True))) = []"
    and "settled (step u (RouterSettles n (Resolved True))) = settled u @ [(n, True)]"
    and "nextId (step u (RouterSettles n (Resolved True))) = nextId u"
  using assms
  by (simp_all add: router_settles_def performNavigation_settle_def)

subsection \<open>Going back at the start of the history\<close>

text \<open>
  C9. Whenever \<open>canGoBack\<close> is false (the index is not positive, in particular 0),
  \<open>goBack()\<close> returns false and its only effect is one \<open>INVALID_INDEX\<close> error on the
  error stream: the stack, the index, the two navigation flags and the stored promise
  keep their values and no state is emitted.
\<close>

theorem goBack_at_start:
  assumes "\<not> get_canGoBack s"
  shows "snd (goBack pid s) = Returned False
    \<and> fst (goBack pid s) =
        s\<lparr>navigationError_log := navigationError_log s @
            [\<lparr>err_type = INVALID_INDEX,
              message = ''Cannot go back, already at the beginning of history'',
              originalError = None\<rparr>]\<rparr>
    \<and> priv_paths (fst (goBack pid s)) = priv_paths s
    \<and> priv_currentIndex (fst (goBack pid s)) = priv_currentIndex s
    \<and> priv_isNavigating (fst (goBack pid s)) = priv_isNavigating s
    \<and> isInternalNavigation (fst (goBack pid s)) = isInternalNavigation s
    \<and> navigationPromise (fst (goBack pid s)) = navigationPromise s
    \<and> navigationState_log (fst (goBack pid s)) = navigationState_log s"
  using assms by (simp add: goBack_def emitError_def)

theorem goBack_at_start_witness:
  "\<not> get_canGoBack demo_fresh
   \<and> priv_currentIndex demo_fresh = 0
   \<and> snd (goBack 0 demo_fresh) = Returned False
   \<and> map err_type (navigationError_log (fst (goBack 0 demo_fresh)))
       = [INVALID_INDEX]
   \<and> priv_paths (fst (goBack 0 demo_fresh)) = [''/home'']"
proof -
  have h: "\<not> get_canGoBack demo_fresh"
    by code_simp
  have p: "priv_paths demo_fresh = [''/home'']"
    by code_simp
  have i: "priv_currentIndex demo_fresh = 0"
    by code_simp
  have e: "navigationError_log demo_fresh = []"
    by code_simp
  from goBack_at_start [OF h, of 0] h p i e show ?thesis by simp
qed

subsection \<open>Browser history changes\<close>

text \<open>
  C10. On \<open>popstate\<close>, when the observed path already occurs in the stack, the handler
  sets the index to the first position of that path and emits the state; the stack, its
  length and the two navigation flags are unchanged. When the path does not occur in the
  stack, the handler is exactly the external navigation handler on that path.
\<close>

theorem popstate_known_path:
  "(get_currentPath s \<in> set (priv_paths s) \<longrightarrow>
      handleBrowserHistoryChange s =
        updateNavigationState (s\<lparr>priv_currentIndex := indexOf (priv_paths s) (get_currentPath s)\<rparr>)
      \<and> 0 \<le> priv_currentIndex (handleBrowserHistoryChange s)
      \<and> priv_currentIndex (handleBrowserHistoryChange s) < int (length (priv_paths s))
      \<and> priv_paths s ! nat (priv_currentIndex (handleBrowserHistoryChange s)) = get_currentPath s
      \<and> (\<forall>j < nat (priv_currentIndex (handleBrowserHistoryChange s)).
            priv_paths s ! j \<noteq> get_currentPath s)
      \<and> priv_paths (handleBrowserHistoryChange s) = priv_paths s
      \<and> get_historyLength (handleBrowserHistoryChange s) = get_historyLength s
      \<and> priv_isNavigating (handleBrowserHistoryChange s) = priv_isNavigating s
      \<and> isInternalNavigation (handleBrowserHistoryChange s) = isInternalNavigation s)
   \<and> (get_currentPath s \<notin> set (priv_paths s) \<longrightarrow>
      handleBrowserHistoryChange s = handleExternalNavigation (get_currentPath s) s)"
proof (intro conjI impI)
  assume mem: "get_currentPath s \<in> set (priv_paths s)"
  then have ne: "indexOf (priv_paths s) (get_currentPath s) \<noteq> - 1"
    by (simp add: indexOf_absent)
  then show eq: "handleBrowserHistoryChange s =
      updateNavigationState (s\<lparr>priv_currentIndex := indexOf (priv_paths s) (get_currentPath s)\<rparr>)"
    by (simp add: handleBrowserHistoryChange_def Let_def)
  have ci: "priv_currentIndex (handleBrowserHistoryChange s) = indexOf (priv_paths s) (get_currentPath s)"
    by (simp add: eq updateNavigationState_def)
  from indexOf_first [OF mem] ci
  show "0 \<le> priv_currentIndex (handleBrowserHistoryChange s)"
    and "priv_currentIndex (handleBrowserHistoryChange s) < int (length (priv_paths s))"
    and "priv_paths s ! nat (priv_currentIndex (handleBrowserHistoryChange s)) = get_currentPath s"
    and "\<forall>j < nat (priv_currentIndex (handleBrowserHistoryChange s)). priv_paths s ! j \<noteq> get_currentPath s"
    by simp_all
  show "priv_paths (handleBrowserHistoryChange s) = priv_paths s"
    and "get_historyLength (handleBrowserHistoryChange s) = get_historyLength s"
    and "priv_isNavigating (handleBrowserHistoryChange s) = priv_isNavigating s"
    and "isInternalNavigation (handleBrowserHistoryChange s) = isInternalNavigation s"
    by (simp_all add: eq updateNavigationState_def get_historyLength_def)
next
  assume "get_currentPath s \<notin> set (priv_paths s)"
  then have "indexOf (priv_paths s) (get_currentPath s) = - 1"
    by (simp add: indexOf_absent)
  then show "handleBrowserHistoryChange s = handleExternalNavigation (get_currentPath s) s"
    by (simp add: handleBrowserHistoryChange_def Let_def)
qed


theorem popstate_known_path_witness:
  "get_currentPath demo_known \<in> set (priv_paths demo_known)
   \<and> priv_currentIndex demo_known = 2
   \<and> priv_currentIndex (handleBrowserHistoryChange demo_known) = 1
   \<and> priv_paths (handleBrowserHistoryChange demo_known) = [''/home'', ''/about'', ''/contact'']
   \<and> get_currentPath demo_unknown \<notin> set (priv_paths demo_unknown)
   \<and> handleBrowserHistoryChange demo_unknown = handleExternalNavigation ''/x'' demo_unknown"
proof -
  have k: "get_currentPath demo_known \<in> set (priv_paths demo_known)"
    by code_simp
  have u: "get_currentPath demo_unknown \<notin> set (priv_paths demo_unknown)"
    by code_simp
  have c: "get_currentPath demo_unknown = ''/x''"
    by code_simp
  have i: "priv_currentIndex demo_known = 2"
    by code_simp
  have j: "indexOf (priv_paths demo_known) (get_currentPath demo_known) = 1"
    by code_simp
  have p: "priv_paths demo_known = [''/home'', ''/about'', ''/contact'']"
    by code_simp
  from popstate_known_path [of demo_known] k
  have eq: "handleBrowserHistoryChange demo_known =
      updateNavigationState (demo_known\<lparr>priv_currentIndex := indexOf (priv_paths demo_known) (get_currentPath demo_known)\<rparr>)"
    by blast
  have a: "priv_currentIndex (handleBrowserHistoryChange demo_known) = 1"
    by (simp add: eq j updateNavigationState_def)
  have b: "priv_paths (handleBrowserHistoryChange demo_known) = [''/home'', ''/about'', ''/contact'']"
    by (simp add: eq p updateNavigationState_def)
  from popstate_known_path [of demo_unknown] u
  have "handleBrowserHistoryChange demo_unknown = handleExternalNavigation (get_currentPath demo_unknown) demo_unknown"
    by blast
  then have d: "handleBrowserHistoryChange demo_unknown = handleExternalNavigation ''/x'' demo_unknown"
    by (simp add: c)
  from k i a b u d show ?thesis by blast
qed

subsection \<open>External navigation with forward history\<close>

text \<open>
  C2. When an external location change to \<open>p\<close> is handled while the index is below the
  last position (and the stack is within \<open>maxHistoryLength\<close>, as it always is), the stack
  becomes its positions 0 to \<open>currentIndex\<close> followed by \<open>p\<close>, and the index is that of
  the new last entry. The instance below is the one of the specification:
  \<open>[/a, /b, /c]\<close> at index 0 and a navigation to \<open>/d\<close> give \<open>[/a, /d]\<close> at index 1.
\<close>

theorem external_navigation_truncates:
  assumes "0 \<le> priv_currentIndex s"
    and "priv_currentIndex s < int (length (priv_paths s)) - 1"
    and "int (length (priv_paths s)) \<le> maxHistoryLength (config s)"
  shows "priv_paths (handleExternalNavigation p s) =
           take (nat (priv_currentIndex s) + 1) (priv_paths s) @ [p]
    \<and> priv_currentIndex (handleExternalNavigation p s) =
           int (length (priv_paths (handleExternalNavigation p s))) - 1
    \<and> priv_currentIndex (handleExternalNavigation p s) = priv_currentIndex s + 1"
proof -
  have k: "kept s = take (nat (priv_currentIndex s) + 1) (priv_paths s)"
    using assms by (simp add: kept_def splice_from_def Let_def min_def nat_add_distrib)
  have l: "length (kept s) = nat (priv_currentIndex s) + 1"
    using assms by (simp add: k min_def)
  have "int (length (kept s)) + 1 - maxHistoryLength (config s) \<le> 0"
    using assms l by simp
  then have p: "priv_paths (handleExternalNavigation p s) = kept s @ [p]"
    by (simp add: handleExternalNavigation_paths)
  show ?thesis
    using assms by (simp add: handleExternalNavigation_index p k min_def)
qed


theorem external_navigation_truncates_witness:
  "priv_paths demo_back = [''/a'', ''/b'', ''/c''] \<and> priv_currentIndex demo_back = 0
   \<and> priv_paths (handleExternalNavigation ''/d'' demo_back) = [''/a'', ''/d'']
   \<and> priv_currentIndex (handleExternalNavigation ''/d'' demo_back) = 1"
proof -
  have p: "priv_paths demo_back = [''/a'', ''/b'', ''/c'']" by code_simp
  have i: "priv_currentIndex demo_back = 0" by code_simp
  have m: "maxHistoryLength (config demo_back) = 50" by code_simp
  have "priv_paths (handleExternalNavigation ''/d'' demo_back) =
           take (nat (priv_currentIndex demo_back) + 1) (priv_paths demo_back) @ [''/d'']
    \<and> priv_currentIndex (handleExternalNavigation ''/d'' demo_back) =
           int (length (priv_paths (handleExternalNavigation ''/d'' demo_back))) - 1
    \<and> priv_currentIndex (handleExternalNavigation ''/d'' demo_back) = priv_currentIndex demo_back + 1"
    by (rule external_navigation_truncates) (simp_all add: p i m)
  then show ?thesis by (simp add: p i)
qed

subsection \<open>A failing router call\<close>

text \<open>
  C6. When the router promise awaited by \<open>performNavigation\<close> resolves to false or rejects,
  one \<open>NAVIGATION_FAILED\<close> error is emitted (carrying the rejection's fault; a promise that
  resolves to false supplies no fault, and \<open>originalError\<close> is then absent), both navigation
  flags are cleared and the call returns false. The index and the stack are what they were
  when the promise settled: the index written before the router call is kept, so that
  directly after start and failure the index is the requested one and the stack is the
  original one.
\<close>

theorem navigation_failure_keeps_index:
  assumes "r \<noteq> Resolved True"
  shows "snd (performNavigation_settle t r s') = False
    \<and> navigationError_log (fst (performNavigation_settle t r s')) =
         navigationError_log s' @
           [\<lparr>err_type = NAVIGATION_FAILED,
             message = (case r of Resolved b \<Rightarrow> ''Failed to navigate to '' @ show_path t
                        | Rejected e \<Rightarrow> ''Navigation error: '' @ e),
             originalError = (case r of Resolved b \<Rightarrow> None | Rejected e \<Rightarrow> Some e)\<rparr>]
    \<and> \<not> priv_isNavigating (fst (performNavigation_settle t r s'))
    \<and> \<not> isInternalNavigation (fst (performNavigation_settle t r s'))
    \<and> priv_currentIndex (fst (performNavigation_settle t r s')) = priv_currentIndex s'
    \<and> priv_paths (fst (performNavigation_settle t r s')) = priv_paths s'
    \<and> priv_currentIndex
         (fst (performNavigation_settle (snd (performNavigation_start index s)) r
                (fst (performNavigation_start index s)))) = index
    \<and> priv_paths
         (fst (performNavigation_settle (snd (performNavigation_start index s)) r
                (fst (performNavigation_start index s)))) = priv_paths s"
  using performNavigation_settle_failure [OF assms]
  by (simp add: performNavigation_start_fields)


theorem navigation_failure_keeps_index_witness:
  "Resolved False \<noteq> Resolved True \<and> Rejected ''boom'' \<noteq> Resolved True
   \<and> priv_currentIndex demo_three = 2
   \<and> snd (performNavigation_settle (snd (performNavigation_start 1 demo_three)) (Resolved False)
            (fst (performNavigation_start 1 demo_three))) = False
   \<and> priv_currentIndex
        (fst (performNavigation_settle (snd (performNavigation_start 1 demo_three)) (Resolved False)
               (fst (performNavigation_start 1 demo_three)))) = 1
   \<and> originalError (last (navigationError_log
        (fst (performNavigation_settle (Some ''/about'') (Rejected ''boom'')
               (fst (performNavigation_start 1 demo_three)))))) = Some ''boom''
   \<and> err_type (last (navigationError_log
        (fst (performNavigation_settle (Some ''/about'') (Rejected ''boom'')
               (fst (performNavigation_start 1 demo_three)))))) = NAVIGATION_FAILED"
proof -
  have a: "Resolved False \<noteq> Resolved True" by simp
  have b: "Rejected ''boom'' \<noteq> Resolved True" by simp
  have i: "priv_currentIndex demo_three = 2" by code_simp
  from navigation_failure_keeps_index [OF a, of _ _ 1 demo_three]
  have f1: "snd (performNavigation_settle (snd (performNavigation_start 1 demo_three)) (Resolved False)
            (fst (performNavigation_start 1 demo_three))) = False"
    and f2: "priv_currentIndex
        (fst (performNavigation_settle (snd (performNavigation_start 1 demo_three)) (Resolved False)
               (fst (performNavigation_start 1 demo_three)))) = 1"
    by blast+
  from navigation_failure_keeps_index [OF b, of "Some ''/about''"
      "fst (performNavigation_start 1 demo_three)"]
  have g1: "navigationError_log
        (fst (performNavigation_settle (Some ''/about'') (Rejected ''boom'')
               (fst (performNavigation_start 1 demo_three)))) =
      navigationError_log (fst (performNavigation_start 1 demo_three)) @
        [\<lparr>err_type = NAVIGATION_FAILED, message = ''Navigation error: '' @ ''boom'',
          originalError = Some ''boom''\<rparr>]"
    by simp
  from a b i f1 f2 show ?thesis by (simp add: g1)
qed

subsection \<open>Initialization\<close>

text \<open>
  C7. \<open>initialize(path?)\<close> resolves its target to the argument if that is a non-empty
  string, else to the observed location if non-empty, else to \<open>defaultRoute\<close> (\<open>/\<close> if
  that is empty too), sets both flags and calls the router without touching stack or
  index. When the router succeeds (and \<open>maxHistoryLength\<close> is positive), the stack is
  exactly the resolved path, the index is 0, neither going back nor forward is possible,
  the service is marked initialized and the call returns true. When the router resolves
  to false or rejects, one \<open>INITIALIZATION_FAILED\<close> error is emitted, the call returns false
  and the stack and the index are untouched.
\<close>

theorem initialize_outcomes:
  "snd (initialize_start path s) =
     (case path of
        Some (c # cs) \<Rightarrow> c # cs
      | _ \<Rightarrow> if location s \<noteq> [] then location s
             else if defaultRoute (config s) \<noteq> [] then defaultRoute (config s) else ''/'')
   \<and> priv_paths (fst (initialize_start path s)) = priv_paths s
   \<and> priv_currentIndex (fst (initialize_start path s)) = priv_currentIndex s
   \<and> priv_isNavigating (fst (initialize_start path s))
   \<and> isInternalNavigation (fst (initialize_start path s))
   \<and> (0 < maxHistoryLength (config s') \<longrightarrow>
        snd (initialize_settle initialPath (Resolved True) s') = True
        \<and> priv_paths (fst (initialize_settle initialPath (Resolved True) s')) = [initialPath]
        \<and> priv_currentIndex (fst (initialize_settle initialPath (Resolved True) s')) = 0
        \<and> \<not> get_canGoBack (fst (initialize_settle initialPath (Resolved True) s'))
        \<and> \<not> get_canGoForward (fst (initialize_settle initialPath (Resolved True) s'))
        \<and> isInitialized (fst (initialize_settle initialPath (Resolved True) s'))
        \<and> \<not> priv_isNavigating (fst (initialize_settle initialPath (Resolved True) s'))
        \<and> \<not> isInternalNavigation (fst (initialize_settle initialPath (Resolved True) s'))
        \<and> paths (get_currentState (fst (initialize_settle initialPath (Resolved True) s'))) = [initialPath]
        \<and> currentIndex (get_currentState (fst (initialize_settle initialPath (Resolved True) s'))) = 0
        \<and> \<not> canGoBack (get_currentState (fst (initialize_settle initialPath (Resolved True) s')))
        \<and> \<not> canGoForward (get_currentState (fst (initialize_settle initialPath (Resolved True) s'))))
   \<and> (r \<noteq> Resolved True \<longrightarrow>
        snd (initialize_settle initialPath r s') = False
        \<and> navigationError_log (fst (initialize_settle initialPath r s')) =
             navigationError_log s' @
               [\<lparr>err_type = INITIALIZATION_FAILED,
                 message = (case r of
                              Resolved b \<Rightarrow> ''Failed to navigate to initial path: '' @ initialPath
                            | Rejected e \<Rightarrow> ''Initialization failed''),
                 originalError = (case r of Resolved b \<Rightarrow> None | Rejected e \<Rightarrow> Some e)\<rparr>]
        \<and> priv_paths (fst (initialize_settle initialPath r s')) = priv_paths s'
        \<and> priv_currentIndex (fst (initialize_settle initialPath r s')) = priv_currentIndex s'
        \<and> isInitialized (fst (initialize_settle initialPath r s')) = isInitialized s'
        \<and> \<not> priv_isNavigating (fst (initialize_settle initialPath r s'))
        \<and> \<not> isInternalNavigation (fst (initialize_settle initialPath r s'))
        \<and> priv_paths (fst (initialize_settle (snd (initialize_start path s)) r
                              (fst (initialize_start path s)))) = priv_paths s
        \<and> priv_currentIndex (fst (initialize_settle (snd (initialize_start path s)) r
                              (fst (initialize_start path s)))) = priv_currentIndex s)"
proof (intro conjI impI)
  show "snd (initialize_start path s) =
     (case path of
        Some (c # cs) \<Rightarrow> c # cs
      | _ \<Rightarrow> if location s \<noteq> [] then location s
             else if defaultRoute (config s) \<noteq> [] then defaultRoute (config s) else ''/'')"
    by (simp add: initialize_start_def Let_def js_or_def get_currentPath_def
        split: option.splits list.splits)
  show "priv_paths (fst (initialize_start path s)) = priv_paths s"
    and "priv_currentIndex (fst (initialize_start path s)) = priv_currentIndex s"
    and "priv_isNavigating (fst (initialize_start path s))"
    and "isInternalNavigation (fst (initialize_start path s))"
    by (simp_all add: initialize_start_def Let_def updateNavigationState_frame)
next
  assume m: "0 < maxHistoryLength (config s')"
  let ?t = "fst (initialize_settle initialPath (Resolved True) s')"
  have e: "?t = (updateNavigationState
                  ((addToHistory initialPath (s'\<lparr>priv_paths := []\<rparr>))
                     \<lparr>priv_currentIndex := 0, isInitialized := True\<rparr>))
                \<lparr>isInternalNavigation := False, priv_isNavigating := False\<rparr>"
    by (simp add: initialize_settle_def Let_def)
  have a: "priv_paths (addToHistory initialPath (s'\<lparr>priv_paths := []\<rparr>)) = [initialPath]"
    using m by (simp add: addToHistory_paths)
  show "snd (initialize_settle initialPath (Resolved True) s') = True"
    by (simp add: initialize_settle_def Let_def)
  show p: "priv_paths ?t = [initialPath]"
    by (simp add: e updateNavigationState_frame a)
  show i: "priv_currentIndex ?t = 0"
    by (simp add: e updateNavigationState_frame)
  show "\<not> get_canGoBack ?t"
    by (simp add: get_canGoBack_def i)
  show "\<not> get_canGoForward ?t"
    by (simp add: get_canGoForward_def i p)
  show "isInitialized ?t" and "\<not> priv_isNavigating ?t" and "\<not> isInternalNavigation ?t"
    by (simp_all add: e updateNavigationState_frame)
  have l: "get_currentState ?t =
     snapshot ((addToHistory initialPath (s'\<lparr>priv_paths := []\<rparr>))
                     \<lparr>priv_currentIndex := 0, isInitialized := True\<rparr>)"
    by (simp add: e get_currentState_def updateNavigationState_def)
  show "paths (get_currentState ?t) = [initialPath]"
    and "currentIndex (get_currentState ?t) = 0"
    and "\<not> canGoBack (get_currentState ?t)"
    and "\<not> canGoForward (get_currentState ?t)"
    by (simp_all add: l snapshot_def get_paths_def get_canGoBack_def get_canGoForward_def a)
next
  assume f: "r \<noteq> Resolved True"
  then show "snd (initialize_settle initialPath r s') = False"
    by (cases r) (simp_all add: initialize_settle_def Let_def)
  from f show "navigationError_log (fst (initialize_settle initialPath r s')) =
             navigationError_log s' @
               [\<lparr>err_type = INITIALIZATION_FAILED,
                 message = (case r of
                              Resolved b \<Rightarrow> ''Failed to navigate to initial path: '' @ initialPath
                            | Rejected e \<Rightarrow> ''Initialization failed''),
                 originalError = (case r of Resolved b \<Rightarrow> None | Rejected e \<Rightarrow> Some e)\<rparr>]"
    by (cases r) (simp_all add: initialize_settle_def Let_def emitError_def)
  from f have k: "priv_paths (fst (initialize_settle initialPath r z)) = priv_paths z
      \<and> priv_currentIndex (fst (initialize_settle initialPath r z)) = priv_currentIndex z
      \<and> isInitialized (fst (initialize_settle initialPath r z)) = isInitialized z
      \<and> \<not> priv_isNavigating (fst (initialize_settle initialPath r z))
      \<and> \<not> isInternalNavigation (fst (initialize_settle initialPath r z))" for z initialPath
    by (cases r) (simp_all add: initialize_settle_def Let_def emitError_def)
  from k [of initialPath s']
  show "priv_paths (fst (initialize_settle initialPath r s')) = priv_paths s'"
    and "priv_currentIndex (fst (initialize_settle initialPath r s')) = priv_currentIndex s'"
    and "isInitialized (fst (initialize_settle initialPath r s')) = isInitialized s'"
    and "\<not> priv_isNavigating (fst (initialize_settle initialPath r s'))"
    and "\<not> isInternalNavigation (fst (initialize_settle initialPath r s'))"
    by simp_all
  from k [of "snd (initialize_start path s)" "fst (initialize_start path s)"]
  show "priv_paths (fst (initialize_settle (snd (initialize_start path s)) r
                              (fst (initialize_start path s)))) = priv_paths s"
    and "priv_currentIndex (fst (initialize_settle (snd (initialize_start path s)) r
                              (fst (initialize_start path s)))) = priv_currentIndex s"
    by (simp_all add: initialize_start_def Let_def updateNavigationState_frame)
qed


theorem initialize_outcomes_witness:
  "0 < maxHistoryLength (config demo_init) \<and> Resolved False \<noteq> Resolved True
   \<and> snd (initialize_start (Some ''/x'') demo_three) = ''/x''
   \<and> snd (initialize_settle ''/x'' (Resolved True) demo_init) = True
   \<and> priv_paths (fst (initialize_settle ''/x'' (Resolved True) demo_init)) = [''/x'']
   \<and> priv_currentIndex (fst (initialize_settle ''/x'' (Resolved True) demo_init)) = 0
   \<and> \<not> get_canGoBack (fst (initialize_settle ''/x'' (Resolved True) demo_init))
   \<and> \<not> get_canGoForward (fst (initialize_settle ''/x'' (Resolved True) demo_init))
   \<and> snd (initialize_settle ''/x'' (Resolved False) demo_init) = False
   \<and> priv_paths (fst (initialize_settle ''/x'' (Resolved False) demo_init))
        = [''/home'', ''/about'', ''/contact'']
   \<and> priv_currentIndex (fst (initialize_settle ''/x'' (Resolved False) demo_init)) = 2"
proof -
  have m: "0 < maxHistoryLength (config demo_init)" by code_simp
  have f: "Resolved False \<noteq> Resolved True" by simp
  have p: "priv_paths demo_init = [''/home'', ''/about'', ''/contact'']" by code_simp
  have i: "priv_currentIndex demo_init = 2" by code_simp
  note t = initialize_outcomes [of "Some ''/x''" demo_three demo_init "''/x''" "Resolved False"]
  from t have a: "snd (initialize_start (Some ''/x'') demo_three) = ''/x''"
    by simp
  from t m have b: "snd (initialize_settle ''/x'' (Resolved True) demo_init) = True
   \<and> priv_paths (fst (initialize_settle ''/x'' (Resolved True) demo_init)) = [''/x'']
   \<and> priv_currentIndex (fst (initialize_settle ''/x'' (Resolved True) demo_init)) = 0
   \<and> \<not> get_canGoBack (fst (initialize_settle ''/x'' (Resolved True) demo_init))
   \<and> \<not> get_canGoForward (fst (initialize_settle ''/x'' (Resolved True) demo_init))"
    by blast
  from t f have c: "snd (initialize_settle ''/x'' (Resolved False) demo_init) = False
   \<and> priv_paths (fst (initialize_settle ''/x'' (Resolved False) demo_init)) = priv_paths demo_init
   \<and> priv_currentIndex (fst (initialize_settle ''/x'' (Resolved False) demo_init)) = priv_currentIndex demo_init"
    by blast
  from m f a b c show ?thesis by (simp add: p i)
qed


subsection \<open>Eviction\<close>

text \<open>
  C3. With a positive \<open>maxHistoryLength\<close>: when the stack with the appended entry is
  longer than the bound, \<open>addToHistory\<close> drops the excess from the front, so that the
  length equals the bound, and lowers the index by the number dropped, not below 0;
  otherwise it only appends. Consequently, external navigations to
  \<open>maxHistoryLength + k\<close> distinct paths (\<open>k > 0\<close>, the first one a change of location)
  leave a stack of length \<open>maxHistoryLength\<close> that holds the last \<open>maxHistoryLength\<close>
  of these paths in order, whatever the stack was before.
\<close>

theorem eviction_keeps_most_recent:
  assumes "0 < maxHistoryLength (config s)"
  shows "(int (length (priv_paths s)) + 1 > maxHistoryLength (config s) \<longrightarrow>
            int (length (priv_paths (addToHistory p s))) = maxHistoryLength (config s)
          \<and> priv_paths (addToHistory p s) =
              drop (nat (int (length (priv_paths s)) + 1 - maxHistoryLength (config s)))
                (priv_paths s @ [p])
          \<and> priv_currentIndex (addToHistory p s) =
              max 0 (priv_currentIndex s -
                       (int (length (priv_paths s)) + 1 - maxHistoryLength (config s))))
    \<and> (int (length (priv_paths s)) + 1 \<le> maxHistoryLength (config s) \<longrightarrow>
            priv_paths (addToHistory p s) = priv_paths s @ [p]
          \<and> priv_currentIndex (addToHistory p s) = priv_currentIndex s)
    \<and> (\<not> isInternalNavigation s \<and> distinct ps \<and> previousPath s \<noteq> Some (hd ps)
          \<and> int (length ps) = maxHistoryLength (config s) + k \<and> 0 < k \<longrightarrow>
            get_historyLength (observeAll ps s) = maxHistoryLength (config s)
          \<and> priv_paths (observeAll ps s) = drop (nat k) ps)"
proof (intro conjI impI)
  assume "int (length (priv_paths s)) + 1 > maxHistoryLength (config s)"
  with assms show "int (length (priv_paths (addToHistory p s))) = maxHistoryLength (config s)"
    by (simp add: addToHistory_paths)
  show "priv_paths (addToHistory p s) =
      drop (nat (int (length (priv_paths s)) + 1 - maxHistoryLength (config s)))
        (priv_paths s @ [p])"
    by (rule addToHistory_paths)
  from \<open>int (length (priv_paths s)) + 1 > maxHistoryLength (config s)\<close>
  show "priv_currentIndex (addToHistory p s) =
      max 0 (priv_currentIndex s -
               (int (length (priv_paths s)) + 1 - maxHistoryLength (config s)))"
    by (simp add: addToHistory_index)
next
  assume "int (length (priv_paths s)) + 1 \<le> maxHistoryLength (config s)"
  then show "priv_paths (addToHistory p s) = priv_paths s @ [p]"
    and "priv_currentIndex (addToHistory p s) = priv_currentIndex s"
    by (simp_all add: addToHistory_paths addToHistory_index)
next
  assume h: "\<not> isInternalNavigation s \<and> distinct ps \<and> previousPath s \<noteq> Some (hd ps)
          \<and> int (length ps) = maxHistoryLength (config s) + k \<and> 0 < k"
  with assms have ne: "ps \<noteq> []" by auto
  from h have da: "distinct_adj ps" by (simp add: distinct_imp_distinct_adj)
  from observeAll_external [of s ps] h ne da
  have e: "priv_paths (observeAll ps s) = most_recent (maxHistoryLength (config s)) (kept s @ ps)"
    by blast
  have n: "nat (int (length (kept s)) + int (length ps) - maxHistoryLength (config s))
             = length (kept s) + nat k"
    using h by (simp add: nat_add_distrib)
  show p: "priv_paths (observeAll ps s) = drop (nat k) ps"
    by (simp add: e most_recent_def n)
  have "int (length ps - nat k) = maxHistoryLength (config s)"
    using h assms by linarith
  then show "get_historyLength (observeAll ps s) = maxHistoryLength (config s)"
    by (simp add: get_historyLength_def p)
qed

theorem eviction_keeps_most_recent_witness:
  "0 < maxHistoryLength (config demo_small)
   \<and> \<not> isInternalNavigation demo_small \<and> distinct [''/a'', ''/b'', ''/c'']
   \<and> previousPath demo_small \<noteq> Some (hd [''/a'', ''/b'', ''/c''])
   \<and> int (length [''/a'', ''/b'', ''/c'']) = maxHistoryLength (config demo_small) + 1
   \<and> get_historyLength (observeAll [''/a'', ''/b'', ''/c''] demo_small) = 2
   \<and> priv_paths (observeAll [''/a'', ''/b'', ''/c''] demo_small) = [''/b'', ''/c'']
   \<and> int (length (priv_paths (observeAll [''/a'', ''/b''] demo_small))) + 1
        > maxHistoryLength (config (observeAll [''/a'', ''/b''] demo_small))
   \<and> priv_paths (addToHistory ''/z'' (observeAll [''/a'', ''/b''] demo_small)) = [''/b'', ''/z'']
   \<and> priv_currentIndex (addToHistory ''/z'' (observeAll [''/a'', ''/b''] demo_small)) = 0
   \<and> int (length (priv_paths demo_small)) + 1 \<le> maxHistoryLength (config demo_small)
   \<and> priv_paths (addToHistory ''/z'' demo_small) = [''/z'']"
proof -
  have p0: "priv_paths demo_small = []" by code_simp
  have m: "maxHistoryLength (config demo_small) = 2" by code_simp
  have i: "\<not> isInternalNavigation demo_small" by code_simp
  have q: "previousPath demo_small \<noteq> Some (hd [''/a'', ''/b'', ''/c''])" by code_simp
  have d: "distinct [''/a'', ''/b'', ''/c'']" by simp
  have m2: "maxHistoryLength (config (observeAll [''/a'', ''/b''] demo_small)) = 2" by code_simp
  have p2: "priv_paths (observeAll [''/a'', ''/b''] demo_small) = [''/a'', ''/b'']" by code_simp
  have i2: "priv_currentIndex (observeAll [''/a'', ''/b''] demo_small) = 1" by code_simp
  have pos: "0 < maxHistoryLength (config demo_small)" by (simp add: m)
  have pos2: "0 < maxHistoryLength (config (observeAll [''/a'', ''/b''] demo_small))"
    by (simp add: m2)
  from eviction_keeps_most_recent [OF pos, of _ "[''/a'', ''/b'', ''/c'']" 1] i q d m
  have a: "get_historyLength (observeAll [''/a'', ''/b'', ''/c''] demo_small) = 2
     \<and> priv_paths (observeAll [''/a'', ''/b'', ''/c''] demo_small) = [''/b'', ''/c'']"
    by simp
  from eviction_keeps_most_recent [OF pos2, of "''/z''"] m2 p2 i2
  have b: "priv_paths (addToHistory ''/z'' (observeAll [''/a'', ''/b''] demo_small)) = [''/b'', ''/z'']
     \<and> priv_currentIndex (addToHistory ''/z'' (observeAll [''/a'', ''/b''] demo_small)) = 0"
    by simp
  from eviction_keeps_most_recent [OF pos, of "''/z''"] m p0
  have c: "priv_paths (addToHistory ''/z'' demo_small) = [''/z'']"
    by simp
  from m i q d a b m2 p2 p0 c show ?thesis by simp
qed

subsection \<open>Filling the stack\<close>

text \<open>
  C1, as amended. Starting from an empty stack, after external location changes to a
  non-empty sequence of paths of length \<open>n \<le> maxHistoryLength\<close> in which no path equals
  the one reported just before it, the stack is the sequence itself: the length is \<open>n\<close>,
  the index is \<open>n - 1\<close>, the entry at the index is the last path, and \<open>currentPath\<close>, which
  is read from the observed location, is the last path when that is a non-empty string.
  The emitted state shows the same values.
\<close>

theorem external_navigations_fill_stack:
  assumes "priv_paths s = []" and "\<not> isInternalNavigation s"
    and "ps \<noteq> []" and "distinct_adj ps" and "previousPath s \<noteq> Some (hd ps)"
    and "int (length ps) \<le> maxHistoryLength (config s)"
  shows "get_historyLength (observeAll ps s) = int (length ps)
    \<and> priv_currentIndex (observeAll ps s) = int (length ps) - 1
    \<and> priv_paths (observeAll ps s) = ps
    \<and> getPathAtIndex (priv_currentIndex (observeAll ps s)) (observeAll ps s) = Some (last ps)
    \<and> location (observeAll ps s) = last ps
    \<and> (last ps \<noteq> [] \<longrightarrow> get_currentPath (observeAll ps s) = last ps)
    \<and> historyLength (get_currentState (observeAll ps s)) = int (length ps)
    \<and> currentIndex (get_currentState (observeAll ps s)) = int (length ps) - 1
    \<and> (last ps \<noteq> [] \<longrightarrow> currentPath (get_currentState (observeAll ps s)) = last ps)"
proof -
  from observeAll_external [OF assms(2,3,5,4)]
  have e: "priv_paths (observeAll ps s) = most_recent (maxHistoryLength (config s)) (kept s @ ps)"
    and i: "priv_currentIndex (observeAll ps s) = int (length (priv_paths (observeAll ps s))) - 1"
    and l: "location (observeAll ps s) = last ps"
    and c: "get_currentState (observeAll ps s) = snapshot (observeAll ps s)"
    by simp_all
  have p: "priv_paths (observeAll ps s) = ps"
    using assms(6) by (simp add: e kept_empty [OF assms(1)] most_recent_all)
  have "nat (int (length ps) - 1) = length ps - 1"
    by linarith
  then have g: "getPathAtIndex (priv_currentIndex (observeAll ps s)) (observeAll ps s) = Some (last ps)"
    using assms(3) by (simp add: getPathAtIndex_def js_index_def i p last_conv_nth)
  show ?thesis
    using i l g by (simp add: c snapshot_def p get_historyLength_def get_currentPath_def js_or_def)
qed

theorem external_navigations_fill_stack_witness:
  "priv_paths demo_empty = [] \<and> \<not> isInternalNavigation demo_empty
   \<and> distinct_adj [''/a'', ''/b'', ''/a'']
   \<and> get_historyLength (observeAll [''/a'', ''/b'', ''/a''] demo_empty) = 3
   \<and> priv_currentIndex (observeAll [''/a'', ''/b'', ''/a''] demo_empty) = 2
   \<and> get_currentPath (observeAll [''/a'', ''/b'', ''/a''] demo_empty) = ''/a''"
proof -
  have e: "priv_paths demo_empty = []" by code_simp
  have i: "\<not> isInternalNavigation demo_empty" by code_simp
  have q: "previousPath demo_empty \<noteq> Some (hd [''/a'', ''/b'', ''/a''])" by code_simp
  have m: "int (length [''/a'', ''/b'', ''/a'']) \<le> maxHistoryLength (config demo_empty)" by code_simp
  have d: "distinct_adj [''/a'', ''/b'', ''/a'']" by simp
  have n: "[''/a'', ''/b'', ''/a''] \<noteq> []" by simp
  from external_navigations_fill_stack [OF e i n d q m] e i d
  show ?thesis by simp
qed

text \<open>
  C1 as stated fails when a path is reported twice in a row: the listener ignores the
  repetition, so two notifications of \<open>/a\<close> leave one entry and index 0.
\<close>

theorem repeated_notification_counterexample:
  "priv_paths demo_empty = [] \<and> \<not> isInternalNavigation demo_empty
   \<and> int (length [''/a'', ''/a'']) \<le> maxHistoryLength (config demo_empty)
   \<and> get_historyLength (observeAll [''/a'', ''/a''] demo_empty) = 1
   \<and> get_historyLength (observeAll [''/a'', ''/a''] demo_empty) \<noteq> int (length [''/a'', ''/a''])
   \<and> priv_currentIndex (observeAll [''/a'', ''/a''] demo_empty) \<noteq> int (length [''/a'', ''/a'']) - 1"
  by code_simp


subsection \<open>The index invariant\<close>

text \<open>
  C4, as amended. With a positive \<open>maxHistoryLength\<close>, the property "the index addresses
  an entry of the stack, or the stack is empty and the index is 0" holds after
  construction and is preserved by every step of the service: a call of \<open>goBack\<close>,
  \<open>goForward\<close>, \<open>navigateToPath\<close>, \<open>initialize\<close>, \<open>reset\<close> or \<open>clearHistory\<close> (which leaves
  the stack empty), a location change, a \<open>popstate\<close>, the settling of a router promise, and
  by \<open>addToHistory\<close> with its eviction; for the settling of a router promise this is
  under the condition that the requests queued behind that promise carry indices that
  are still inside the stack.
\<close>

theorem index_stays_in_range:
  assumes "index_in_range (service w)" and "0 < maxHistoryLength (config (service w))"
    and "\<forall>pid r. e = RouterSettles pid r \<longrightarrow>
           (\<forall>q \<in> set (queued w). fst (snd q) = pid \<longrightarrow>
              0 \<le> snd (snd q) \<and> snd (snd q) < int (length (priv_paths (service w))))"
  shows "index_in_range (service (step w e))
    \<and> config (service (step w e)) = config (service w)
    \<and> index_in_range (addToHistory p (service w))
    \<and> index_in_range (new_HistoryService loc c)"
proof -
  let ?s = "service w"
  have "index_in_range (service (step w e)) \<and> config (service (step w e)) = config ?s"
  proof (cases e)
    case CallGoBack
    from record_call_service [of "goBack (nextId w) ?s" w] call_await(1) [of "nextId w" ?s]
      index_in_range_goBack [OF assms(1)]
    show ?thesis by (simp add: CallGoBack config_kept)
  next
    case CallGoForward
    from record_call_service [of "goForward (nextId w) ?s" w] call_await(2) [of "nextId w" ?s]
      index_in_range_goForward [OF assms(1)]
    show ?thesis by (simp add: CallGoForward config_kept)
  next
    case (CallNavigateToPath x)
    from record_call_service [of "navigateToPath (nextId w) x ?s" w]
      call_await(3) [of "nextId w" x ?s] index_in_range_navigateToPath [OF assms(1)]
    show ?thesis by (simp add: CallNavigateToPath config_kept)
  next
    case (CallInitialize path)
    then show ?thesis
      using assms(1)
      by (simp add: call_initialize_def split_def Let_def index_in_range_initialize_start config_kept)
  next
    case CallReset
    then show ?thesis
      using assms(1)
      by (simp add: call_initialize_def split_def Let_def index_in_range_initialize_start config_kept)
  next
    case CallClearHistory
    then show ?thesis by (simp add: index_in_range_clearHistory config_kept)
  next
    case (UrlChange x)
    from index_in_range_locationListener [of "?s\<lparr>location := x\<rparr>" x] assms(1,2)
    show ?thesis by (simp add: UrlChange config_kept)
  next
    case (PopState x)
    from index_in_range_handleBrowserHistoryChange [of "?s\<lparr>location := x\<rparr>"] assms(2)
    show ?thesis by (simp add: PopState config_kept)
  next
    case (RouterSettles pid r)
    show ?thesis
    proof (cases "map_of (navigating w) pid")
      case (Some t)
      let ?w1 = "w\<lparr>service := fst (performNavigation_settle t r ?s),
                    navigating := filter (\<lambda>c. fst c \<noteq> pid) (navigating w),
                    queued := filter (\<lambda>q. fst (snd q) \<noteq> pid) (queued w),
                    settled := settled w @ [(pid, snd (performNavigation_settle t r ?s))]\<rparr>"
      have st: "step w e = foldl resume ?w1 (filter (\<lambda>q. fst (snd q) = pid) (queued w))"
        by (simp add: RouterSettles router_settles_def Some split_def Let_def)
      have a: "index_in_range (service ?w1)"
        using assms(1) by (simp add: index_in_range_performNavigation_settle)
      have b: "priv_paths (fst (performNavigation_settle t r ?s)) = priv_paths ?s"
        by (cases r) (simp_all add: performNavigation_settle_def emitError_frame)
      have c: "\<forall>q \<in> set (filter (\<lambda>q. fst (snd q) = pid) (queued w)).
                 0 \<le> snd (snd q) \<and> snd (snd q) < int (length (priv_paths (service ?w1)))"
        using assms(3) RouterSettles by (auto simp: b)
      from foldl_resume_in_range [OF a c] foldl_resume_config [of ?w1]
      show ?thesis by (simp add: st config_kept)
    next
      case None
      show ?thesis
      proof (cases "map_of (initializing w) pid")
        case (Some ip)
        with None RouterSettles index_in_range_initialize_settle [OF assms(1,2), of ip r]
        show ?thesis by (simp add: router_settles_def split_def Let_def config_kept)
      next
        case none: None
        with None RouterSettles assms(1) show ?thesis by (simp add: router_settles_def)
      qed
    qed
  qed
  then show ?thesis
    using index_in_range_addToHistory [OF assms(1,2)] index_in_range_new by simp
qed

theorem index_stays_in_range_witness:
  "index_in_range (service demo_queued) \<and> 0 < maxHistoryLength (config (service demo_queued))
   \<and> queued demo_queued = [(1, 0, 1)]
   \<and> priv_paths (service demo_queued) = [''/home'', ''/about'']
   \<and> priv_currentIndex (service demo_queued) = 0
   \<and> index_in_range (service (step demo_queued (RouterSettles 0 (Resolved True))))
   \<and> priv_currentIndex (service (step demo_queued (RouterSettles 0 (Resolved True)))) = 1"
proof -
  have a: "index_in_range (service demo_queued)" by code_simp
  have m: "0 < maxHistoryLength (config (service demo_queued))" by code_simp
  have q: "queued demo_queued = [(1, 0, 1)]" by code_simp
  have p: "priv_paths (service demo_queued) = [''/home'', ''/about'']" by code_simp
  have i: "priv_currentIndex (service demo_queued) = 0" by code_simp
  have j: "priv_currentIndex (service (step demo_queued (RouterSettles 0 (Resolved True)))) = 1"
    by code_simp
  have h: "\<forall>pid r. RouterSettles 0 (Resolved True) = RouterSettles pid r \<longrightarrow>
           (\<forall>q \<in> set (queued demo_queued). fst (snd q) = pid \<longrightarrow>
              0 \<le> snd (snd q) \<and> snd (snd q) < int (length (priv_paths (service demo_queued))))"
    by (simp add: q p)
  from index_stays_in_range [OF a m h] a m q p i j show ?thesis by simp
qed

text \<open>
  C4 as stated fails for a request that was queued behind another navigation: it resumes
  with the index it was given. Here \<open>goForward()\<close> is queued with index 1 behind
  \<open>goBack()\<close>; the history is cleared and \<open>/e\<close> is visited before the router settles;
  the resumed call then writes index 1 into a stack of one entry.
\<close>

theorem stale_index_counterexample:
  "index_in_range (service demo_stale)
   \<and> priv_paths (service demo_stale) = [''/e'']
   \<and> priv_currentIndex (service demo_stale) = 0
   \<and> queued demo_stale = [(1, 0, 1)]
   \<and> priv_paths (service (step demo_stale (RouterSettles 0 (Resolved True)))) = [''/e'']
   \<and> priv_currentIndex (service (step demo_stale (RouterSettles 0 (Resolved True)))) = 1
   \<and> \<not> (priv_currentIndex (service (step demo_stale (RouterSettles 0 (Resolved True))))
          < int (length (priv_paths (service (step demo_stale (RouterSettles 0 (Resolved True)))))))"
  by code_simp


subsection \<open>Requests during a navigation in flight\<close>

text \<open>
  The guard of \<open>navigateToIndex\<close> at work. When \<open>navigationPromise\<close> holds the promise
  of an index navigation that still awaits the router and \<open>goBack\<close>, \<open>goForward\<close> or
  \<open>navigateToPath\<close> is called with an index inside the stack, the call emits one
  \<open>CONCURRENT_NAVIGATION\<close> error and is queued behind that promise with its index;
  whatever location changes, \<open>popstate\<close> events and \<open>clearHistory\<close> calls happen
  meanwhile, once the router settles the promise in flight the queued call runs
  \<open>performNavigation\<close> with the index it was given, and once the router settles that
  call too, both calls have settled to booleans. When the field is empty, the guard lets
  the call through.
\<close>

lemma tracked_request_is_queued:
  assumes inflight: "navigationPromise (service w) = Some a" "a \<in> fst ` set (navigating w)"
    and req: "requested_index e (service w) = Some i"
      "0 \<le> i" "i < int (length (priv_paths (service w)))"
    and fresh: "nextId w \<notin> fst ` set (navigating w)" "nextId w \<notin> fst ` set (queued w)"
    and pas: "\<forall>x \<in> set es1. is_passive x" "\<forall>x \<in> set es2. is_passive x"
  shows "(let n = nextId w;
             w1 = step w e;
             w2 = step (run w1 es1) (RouterSettles a r1);
             w3 = step (run w2 es2) (RouterSettles n r2)
         in service w1 =
              emitError CONCURRENT_NAVIGATION ''Navigation already in progress, waiting...'' None
                (service w)
          \<and> queued w1 = queued w @ [(n, a, i)]
          \<and> navigating w1 = navigating w
          \<and> settled w1 = settled w
          \<and> (a, r1 = Resolved True) \<in> set (settled w2)
          \<and> priv_currentIndex (service w2) = i
          \<and> navigationPromise (service w2) = Some n
          \<and> isInternalNavigation (service w2)
          \<and> priv_isNavigating (service w2)
          \<and> (n, getPathAtIndex i (service (run w1 es1))) \<in> set (navigating w2)
          \<and> n \<notin> fst ` set (queued w2)
          \<and> (a, r1 = Resolved True) \<in> set (settled w3)
          \<and> (n, r2 = Resolved True) \<in> set (settled w3)
          \<and> n \<notin> fst ` set (navigating w3))
    \<and> (navigationPromise (service u) = None \<and> requested_index e' (service u) = Some j
          \<and> 0 \<le> j \<and> j < int (length (priv_paths (service u))) \<longrightarrow>
        navigationError_log (service (step u e')) = navigationError_log (service u)
        \<and> queued (step u e') = queued u
        \<and> navigating (step u e') = navigating u @ [(nextId u, getPathAtIndex j (service u))]
        \<and> priv_currentIndex (service (step u e')) = j)"
proof -
  define n where "n = nextId w"
  define w1 where "w1 = step w e"
  define v1 where "v1 = run w1 es1"
  define w2 where "w2 = step v1 (RouterSettles a r1)"
  define v2 where "v2 = run w2 es2"
  define w3 where "w3 = step v2 (RouterSettles n r2)"
  let ?err = "emitError CONCURRENT_NAVIGATION ''Navigation already in progress, waiting...'' None
                (service w)"
  \<comment> \<open>the call: an error, and the request is queued\<close>
  have nav: "navigateToIndex n i (service w) = (?err, AwaitPromise a i)"
    using inflight(1) req(2,3) by (simp add: navigateToIndex_def)
  have w1: "w1 = record_call w (?err, AwaitPromise a i)"
    unfolding w1_def using requested_call [OF req(1) refl] nav by (simp add: n_def)
  have s1: "service w1 = ?err" and q1: "queued w1 = queued w @ [(n, a, i)]"
    and g1: "navigating w1 = navigating w" and t1: "settled w1 = settled w"
    using inflight(2) by (simp_all add: w1 record_call_def Let_def n_def)
  \<comment> \<open>other events do not touch the suspended calls\<close>
  from passive_run [OF pas(1), of w1]
  have gv1: "navigating v1 = navigating w" and qv1: "queued v1 = queued w @ [(n, a, i)]"
    and tv1: "settled v1 = settled w"
    by (simp_all add: v1_def g1 q1 t1)
  \<comment> \<open>the promise in flight settles; the queued request resumes last\<close>
  from inflight(2) obtain t where t: "map_of (navigating w) a = Some t"
    by (cases "map_of (navigating w) a") (simp_all add: map_of_eq_None_iff)
  define b where "b = v1\<lparr>service := fst (performNavigation_settle t r1 (service v1)),
          navigating := filter (\<lambda>c. fst c \<noteq> a) (navigating v1),
          queued := filter (\<lambda>q. fst (snd q) \<noteq> a) (queued v1),
          settled := settled v1 @ [(a, r1 = Resolved True)]\<rparr>"
  define m where "m = foldl resume b (filter (\<lambda>q. fst (snd q) = a) (queued w))"
  have "map_of (navigating v1) a = Some t" by (simp add: gv1 t)
  from settle_step [OF this, of r1]
  have w2: "w2 = resume m (n, a, i)"
    by (simp add: w2_def b_def m_def qv1)
  from foldl_resume_frame [of b "filter (\<lambda>q. fst (snd q) = a) (queued w)"]
  have tm: "settled m = settled w @ [(a, r1 = Resolved True)]"
    and qm: "queued m = filter (\<lambda>q. fst (snd q) \<noteq> a) (queued w)"
    and pm: "priv_paths (service m) = priv_paths (service v1)"
    and gm: "fst ` set (navigating m) =
               fst ` set (filter (\<lambda>c. fst c \<noteq> a) (navigating w))
               \<union> fst ` set (filter (\<lambda>q. fst (snd q) = a) (queued w))"
    by (simp_all add: m_def b_def tv1 qv1 gv1 settle_paths)
  have nm: "n \<notin> fst ` set (navigating m)"
    using fresh by (auto simp: gm n_def)
  have s2: "service w2 = fst (navigateToIndex_proceed n i (service m))"
    and g2: "navigating w2 = navigating m @ [(n, getPathAtIndex i (service v1))]"
    and t2: "settled w2 = settled w @ [(a, r1 = Resolved True)]"
    and q2: "queued w2 = filter (\<lambda>q. fst (snd q) \<noteq> a) (queued w)"
    by (simp_all add: w2 resume_eq tm qm pm getPathAtIndex_def)
  have nq2: "n \<notin> fst ` set (queued w2)"
    using fresh(2) by (auto simp: q2 n_def)
  \<comment> \<open>the resumed request's own router promise settles\<close>
  from passive_run [OF pas(2), of w2]
  have gv2: "navigating v2 = navigating m @ [(n, getPathAtIndex i (service v1))]"
    and qv2: "queued v2 = filter (\<lambda>q. fst (snd q) \<noteq> a) (queued w)"
    and tv2: "settled v2 = settled w @ [(a, r1 = Resolved True)]"
    by (simp_all add: v2_def g2 q2 t2)
  have "map_of (navigating v2) n = Some (getPathAtIndex i (service v1))"
    by (simp only: gv2 map_of_snoc_fresh [OF nm])
  from settle_step [OF this, of r2]
  have w3: "w3 = foldl resume
       (v2\<lparr>service := fst (performNavigation_settle (getPathAtIndex i (service v1)) r2 (service v2)),
          navigating := filter (\<lambda>c. fst c \<noteq> n) (navigating v2),
          queued := filter (\<lambda>q. fst (snd q) \<noteq> n) (queued v2),
          settled := settled v2 @ [(n, r2 = Resolved True)]\<rparr>)
       (filter (\<lambda>q. fst (snd q) = n) (queued v2))"
    by (simp add: w3_def)
  have t3: "settled w3 = settled w @ [(a, r1 = Resolved True), (n, r2 = Resolved True)]"
    by (simp add: w3 foldl_resume_frame tv2)
  have g3: "fst ` set (navigating w3) =
      fst ` set (filter (\<lambda>c. fst c \<noteq> n) (navigating v2))
      \<union> fst ` set (filter (\<lambda>q. fst (snd q) = n) (queued v2))"
    by (simp add: w3 foldl_resume_frame)
  have n3: "n \<notin> fst ` set (navigating w3)"
    using fresh(2) by (auto simp: g3 qv2 n_def)
  have "service w1 = ?err \<and> queued w1 = queued w @ [(n, a, i)] \<and> navigating w1 = navigating w
      \<and> settled w1 = settled w
      \<and> (a, r1 = Resolved True) \<in> set (settled w2)
      \<and> priv_currentIndex (service w2) = i
      \<and> navigationPromise (service w2) = Some n
      \<and> isInternalNavigation (service w2)
      \<and> priv_isNavigating (service w2)
      \<and> (n, getPathAtIndex i (service v1)) \<in> set (navigating w2)
      \<and> n \<notin> fst ` set (queued w2)
      \<and> (a, r1 = Resolved True) \<in> set (settled w3)
      \<and> (n, r2 = Resolved True) \<in> set (settled w3)
      \<and> n \<notin> fst ` set (navigating w3)"
    using s1 q1 g1 t1 nq2 n3 by (simp add: t2 t3 s2 g2 proceed_fields)
  then have main: "let n = nextId w;
             w1 = step w e;
             w2 = step (run w1 es1) (RouterSettles a r1);
             w3 = step (run w2 es2) (RouterSettles n r2)
         in service w1 = ?err
          \<and> queued w1 = queued w @ [(n, a, i)]
          \<and> navigating w1 = navigating w
          \<and> settled w1 = settled w
          \<and> (a, r1 = Resolved True) \<in> set (settled w2)
          \<and> priv_currentIndex (service w2) = i
          \<and> navigationPromise (service w2) = Some n
          \<and> isInternalNavigation (service w2)
          \<and> priv_isNavigating (service w2)
          \<and> (n, getPathAtIndex i (service (run w1 es1))) \<in> set (navigating w2)
          \<and> n \<notin> fst ` set (queued w2)
          \<and> (a, r1 = Resolved True) \<in> set (settled w3)
          \<and> (n, r2 = Resolved True) \<in> set (settled w3)
          \<and> n \<notin> fst ` set (navigating w3)"
    unfolding Let_def n_def w1_def v1_def w2_def v2_def w3_def .
  have free: "navigationError_log (service (step u e')) = navigationError_log (service u)
        \<and> queued (step u e') = queued u
        \<and> navigating (step u e') = navigating u @ [(nextId u, getPathAtIndex j (service u))]
        \<and> priv_currentIndex (service (step u e')) = j"
    if h: "navigationPromise (service u) = None \<and> requested_index e' (service u) = Some j
          \<and> 0 \<le> j \<and> j < int (length (priv_paths (service u)))"
  proof -
    from h have r: "requested_index e' (service u) = Some j" by simp
    from h have "navigateToIndex (nextId u) j (service u) =
        navigateToIndex_proceed (nextId u) j (service u)"
      by (simp add: navigateToIndex_def)
    with requested_call [OF r refl]
    have "step u e' = record_call u (navigateToIndex_proceed (nextId u) j (service u))"
      by simp
    then show ?thesis
      by (simp add: record_call_def Let_def navigateToIndex_proceed_def
          performNavigation_start_def updateNavigationState_frame getPathAtIndex_def)
  qed
  from main free show ?thesis by blast
qed


lemma tracked_request_is_queued_example:
  "navigationPromise (service demo_inflight) = Some 0
   \<and> 0 \<in> fst ` set (navigating demo_inflight)
   \<and> requested_index CallGoForward (service demo_inflight) = Some 2
   \<and> priv_paths (service demo_inflight) = [''/home'', ''/about'', ''/contact'']
   \<and> nextId demo_inflight = 1
   \<and> is_passive (UrlChange ''/about'') \<and> is_passive CallClearHistory
   \<and> queued (step demo_inflight CallGoForward) = [(1, 0, 2)]
   \<and> priv_currentIndex
        (service (step (run (step demo_inflight CallGoForward) [UrlChange ''/about'', CallClearHistory])
                   (RouterSettles 0 (Resolved True)))) = 2
   \<and> (0, True) \<in> set (settled
        (step (run (step (run (step demo_inflight CallGoForward) [UrlChange ''/about'', CallClearHistory])
                     (RouterSettles 0 (Resolved True))) [])
           (RouterSettles 1 (Rejected ''boom''))))
   \<and> (1, False) \<in> set (settled
        (step (run (step (run (step demo_inflight CallGoForward) [UrlChange ''/about'', CallClearHistory])
                     (RouterSettles 0 (Resolved True))) [])
           (RouterSettles 1 (Rejected ''boom''))))
   \<and> navigationPromise (service demo_initializing) = None
   \<and> requested_index CallGoBack (service demo_initializing) = Some 1
   \<and> navigating (step demo_initializing CallGoBack) = [(1, Some ''/about'')]"
proof -
  have a: "navigationPromise (service demo_inflight) = Some 0" by code_simp
  have b: "0 \<in> fst ` set (navigating demo_inflight)" by code_simp
  have c: "requested_index CallGoForward (service demo_inflight) = Some 2" by code_simp
  have p: "priv_paths (service demo_inflight) = [''/home'', ''/about'', ''/contact'']" by code_simp
  have n: "nextId demo_inflight = 1" by code_simp
  have g: "navigating demo_inflight = [(0, Some ''/about'')]" by code_simp
  have q: "queued demo_inflight = []" by code_simp
  have i0: "(0::int) \<le> 2" by simp
  have i1: "2 < int (length (priv_paths (service demo_inflight)))" by (simp add: p)
  have f1: "nextId demo_inflight \<notin> fst ` set (navigating demo_inflight)" by (simp add: n g)
  have f2: "nextId demo_inflight \<notin> fst ` set (queued demo_inflight)" by (simp add: q)
  have e1: "\<forall>x \<in> set [UrlChange ''/about'', CallClearHistory]. is_passive x" by simp
  have e2: "\<forall>x \<in> set ([]::event list). is_passive x" by simp
  have ua: "navigationPromise (service demo_initializing) = None" by code_simp
  have ub: "requested_index CallGoBack (service demo_initializing) = Some 1" by code_simp
  have uc: "priv_paths (service demo_initializing) = [''/home'', ''/about'', ''/contact'']"
    by code_simp
  have ud: "navigating demo_initializing = []" by code_simp
  have ue: "nextId demo_initializing = 1" by code_simp
  from tracked_request_is_queued [OF a b c i0 i1 f1 f2 e1 e2,
      of "Resolved True" "Rejected ''boom''" demo_initializing CallGoBack 1]
  show ?thesis
    using a b c p ua ub
    by (simp add: Let_def n q uc ud ue getPathAtIndex_def js_index_def)
qed

text \<open>
  C5. Every index-navigation request with a valid index that arrives while another
  navigation is in flight should emit \<open>CONCURRENT_NAVIGATION\<close> and wait for that
  navigation before it runs. The guard only looks at \<open>navigationPromise\<close>, and the
  service does not keep that field in step with the navigations in flight:
  \<^item> \<open>initialize\<close> sets \<open>isNavigating\<close> but never stores a promise. While
    \<open>initialize("/x")\<close> awaits the router at \<open>[/home, /about, /contact]\<close>, \<open>goBack()\<close>
    emits no error and calls the router at once; when the first call then fails, the echo
    of the second is taken for an external navigation and the stack becomes
    \<open>[/home, /about, /about]\<close>.
  \<^item> The \<open>finally\<close> block of \<open>performNavigation\<close> empties the field whatever it holds.
    After \<open>goBack()\<close>, \<open>goBack()\<close>, \<open>goForward()\<close> in a row, the settling of the first
    call resumes the other two together, so that two router calls are in flight; when the
    second settles, the field is emptied although the third still awaits the router, and
    a fourth request starts at once, without an error.
\<close>

theorem concurrent_navigation_not_serialized:
  "initializing demo_initializing = [(0, ''/x'')]
   \<and> priv_isNavigating (service demo_initializing)
   \<and> navigationPromise (service demo_initializing) = None
   \<and> requested_index CallGoBack (service demo_initializing) = Some 1
   \<and> navigationError_log (service (step demo_initializing CallGoBack)) = []
   \<and> queued (step demo_initializing CallGoBack) = []
   \<and> navigating (step demo_initializing CallGoBack) = [(1, Some ''/about'')]
   \<and> initializing (step demo_initializing CallGoBack) = [(0, ''/x'')]
   \<and> priv_paths (service (run demo_initializing
          [CallGoBack, RouterSettles 0 (Resolved False), UrlChange ''/about'']))
        = [''/home'', ''/about'', ''/about'']
   \<and> navigating (run (boot demo_three)
          [CallGoBack, CallGoBack, CallGoForward, RouterSettles 0 (Resolved True)])
        = [(1, Some ''/home''), (2, Some ''/contact'')]
   \<and> navigating demo_race = [(2, Some ''/contact'')]
   \<and> navigationPromise (service demo_race) = None
   \<and> requested_index CallGoBack (service demo_race) = Some 1
   \<and> navigationError_log (service (step demo_race CallGoBack))
        = navigationError_log (service demo_race)
   \<and> queued (step demo_race CallGoBack) = []
   \<and> navigating (step demo_race CallGoBack) = [(2, Some ''/contact''), (3, Some ''/about'')]"
  by code_simp

subsection \<open>Back and forward\<close>

text \<open>
  C8, as amended. Take a state with no navigation in flight in which \<open>canGoBack\<close> holds
  and the index addresses an entry of the stack. Call \<open>goBack()\<close>, let the router succeed
  (the location moves to the target, the listener is notified, the promise resolves to
  true), then call \<open>goForward()\<close> and let the router succeed again. Both calls settle to
  true, the stack is unchanged and the index is back at its original value. \<open>currentPath\<close>,
  which is read from the observed location, is then the stack entry at that index when
  that entry is a non-empty string, and the default route (\<open>/\<close> if that is empty too)
  when the entry is the empty string; it is the original \<open>currentPath\<close> whenever the
  location agreed with that entry beforehand.
\<close>

theorem back_then_forward:
  assumes idle: "navigationPromise (service w) = None" "navigating w = []" "queued w = []"
    and can: "get_canGoBack (service w)"
    and ins: "priv_currentIndex (service w) < int (length (priv_paths (service w)))"
  shows "let s = service w; c = priv_currentIndex s; n = nextId w;
             w' = run w [CallGoBack, UrlChange (priv_paths s ! nat (c - 1)),
                         RouterSettles n (Resolved True),
                         CallGoForward, UrlChange (priv_paths s ! nat c),
                         RouterSettles (Suc n) (Resolved True)]
         in priv_currentIndex (service w') = c
          \<and> priv_paths (service w') = priv_paths s
          \<and> (n, True) \<in> set (settled w')
          \<and> (Suc n, True) \<in> set (settled w')
          \<and> getPathAtIndex (priv_currentIndex (service w')) (service w') = Some (priv_paths s ! nat c)
          \<and> get_currentPath (service w') =
               js_or (priv_paths s ! nat c) (js_or (defaultRoute (config s)) ''/'')
          \<and> (priv_paths s ! nat c \<noteq> [] \<longrightarrow>
               get_currentPath (service w') = priv_paths s ! nat c)
          \<and> (location s = priv_paths s ! nat c \<longrightarrow>
               get_currentPath (service w') = get_currentPath s)"
proof -
  define s where "s = service w"
  define c where "c = priv_currentIndex s"
  define n where "n = nextId w"
  define w1 where "w1 = step w CallGoBack"
  define w2 where "w2 = step w1 (UrlChange (priv_paths s ! nat (c - 1)))"
  define w3 where "w3 = step w2 (RouterSettles n (Resolved True))"
  define w4 where "w4 = step w3 CallGoForward"
  define w5 where "w5 = step w4 (UrlChange (priv_paths s ! nat c))"
  define w6 where "w6 = step w5 (RouterSettles (Suc n) (Resolved True))"
  from can ins have c: "0 < c" "c < int (length (priv_paths s))"
    by (simp_all add: get_canGoBack_def c_def s_def)
  \<comment> \<open>\<open>goBack()\<close> starts at once\<close>
  have r1: "requested_index CallGoBack (service w) = Some (c - 1)"
    using can by (simp add: c_def s_def)
  have v1: "0 \<le> c - 1" "c - 1 < int (length (priv_paths (service w)))"
    using c by (simp_all add: s_def)
  note f1 = free_call [OF idle(1) r1 v1, folded w1_def n_def]
  have p1: "priv_paths (service w1) = priv_paths s" "priv_currentIndex (service w1) = c - 1"
    "isInternalNavigation (service w1)" "config (service w1) = config s"
    "navigating w1 = [(n, getPathAtIndex (c - 1) (service w))]" "queued w1 = []"
    "settled w1 = settled w" "nextId w1 = Suc n"
    by (simp_all add: f1 proceed_paths proceed_fields proceed_frame idle s_def)
  \<comment> \<open>the router moves the location, the listener sees the echo, the promise resolves\<close>
  note e2 = echo_step [OF p1(3), of "priv_paths s ! nat (c - 1)", folded w2_def]
  have p2: "navigating w2 = [(n, getPathAtIndex (c - 1) (service w))]" "queued w2 = []"
    by (simp_all add: e2 p1)
  note t3 = settle_alone [OF p2, folded w3_def]
  have p3: "priv_paths (service w3) = priv_paths s" "priv_currentIndex (service w3) = c - 1"
    "navigationPromise (service w3) = None" "config (service w3) = config s"
    "navigating w3 = []" "queued w3 = []" "settled w3 = settled w @ [(n, True)]"
    "nextId w3 = Suc n"
    by (simp_all add: t3 e2 p1)
  \<comment> \<open>\<open>goForward()\<close> starts at once\<close>
  have r4: "requested_index CallGoForward (service w3) = Some c"
    using c by (simp add: get_canGoForward_def p3)
  have v4: "0 \<le> c" "c < int (length (priv_paths (service w3)))"
    using c by (simp_all add: p3)
  note f4 = free_call [OF p3(3) r4 v4, folded w4_def]
  have p4: "priv_paths (service w4) = priv_paths s" "priv_currentIndex (service w4) = c"
    "isInternalNavigation (service w4)" "config (service w4) = config s"
    "navigating w4 = [(Suc n, getPathAtIndex c (service w3))]" "queued w4 = []"
    "settled w4 = settled w @ [(n, True)]"
    by (simp_all add: f4 proceed_paths proceed_fields proceed_frame p3)
  note e5 = echo_step [OF p4(3), of "priv_paths s ! nat c", folded w5_def]
  have p5: "navigating w5 = [(Suc n, getPathAtIndex c (service w3))]" "queued w5 = []"
    by (simp_all add: e5 p4)
  note t6 = settle_alone [OF p5, folded w6_def]
  have p6: "priv_paths (service w6) = priv_paths s" "priv_currentIndex (service w6) = c"
    "location (service w6) = priv_paths s ! nat c" "config (service w6) = config s"
    "settled w6 = settled w @ [(n, True), (Suc n, True)]"
    by (simp_all add: t6 e5 p4)
  have g: "getPathAtIndex (priv_currentIndex (service w6)) (service w6) = Some (priv_paths s ! nat c)"
    using c by (simp add: getPathAtIndex_def js_index_def p6)
  have cp: "get_currentPath (service w6) =
      js_or (priv_paths s ! nat c) (js_or (defaultRoute (config s)) ''/'')"
    by (simp add: get_currentPath_def p6)
  have run6: "run w [CallGoBack, UrlChange (priv_paths s ! nat (c - 1)),
                      RouterSettles n (Resolved True),
                      CallGoForward, UrlChange (priv_paths s ! nat c),
                      RouterSettles (Suc n) (Resolved True)] = w6"
    unfolding run_def w6_def w5_def w4_def w3_def w2_def w1_def
    by (simp only: foldl.simps)
  have "priv_currentIndex (service w6) = c
      \<and> priv_paths (service w6) = priv_paths s
      \<and> (n, True) \<in> set (settled w6)
      \<and> (Suc n, True) \<in> set (settled w6)
      \<and> getPathAtIndex (priv_currentIndex (service w6)) (service w6) = Some (priv_paths s ! nat c)
      \<and> get_currentPath (service w6) =
           js_or (priv_paths s ! nat c) (js_or (defaultRoute (config s)) ''/'')
      \<and> (priv_paths s ! nat c \<noteq> [] \<longrightarrow>
           get_currentPath (service w6) = priv_paths s ! nat c)
      \<and> (location s = priv_paths s ! nat c \<longrightarrow>
           get_currentPath (service w6) = get_currentPath s)"
    using g cp by (simp add: p6 get_currentPath_def js_or_def)
  then show ?thesis
    unfolding Let_def s_def [symmetric] c_def [symmetric] n_def [symmetric] run6 .
qed


theorem back_then_forward_witness:
  "navigationPromise (service (boot demo_three)) = None
   \<and> navigating (boot demo_three) = [] \<and> queued (boot demo_three) = []
   \<and> get_canGoBack (service (boot demo_three))
   \<and> priv_currentIndex (service (boot demo_three)) = 2
   \<and> priv_paths (service (boot demo_three)) = [''/home'', ''/about'', ''/contact'']
   \<and> get_currentPath (service (boot demo_three)) = ''/contact''
   \<and> priv_currentIndex (service (run (boot demo_three)
         [CallGoBack, UrlChange ''/about'', RouterSettles 0 (Resolved True),
          CallGoForward, UrlChange ''/contact'', RouterSettles (Suc 0) (Resolved True)])) = 2
   \<and> get_currentPath (service (run (boot demo_three)
         [CallGoBack, UrlChange ''/about'', RouterSettles 0 (Resolved True),
          CallGoForward, UrlChange ''/contact'', RouterSettles (Suc 0) (Resolved True)])) = ''/contact''"
proof -
  have a: "navigationPromise (service (boot demo_three)) = None" by code_simp
  have b: "navigating (boot demo_three) = []" by code_simp
  have c: "queued (boot demo_three) = []" by code_simp
  have d: "get_canGoBack (service (boot demo_three))" by code_simp
  have i: "priv_currentIndex (service (boot demo_three)) = 2" by code_simp
  have p: "priv_paths (service (boot demo_three)) = [''/home'', ''/about'', ''/contact'']"
    by code_simp
  have l: "location (service (boot demo_three)) = ''/contact''" by code_simp
  have g: "get_currentPath (service (boot demo_three)) = ''/contact''" by code_simp
  have n: "nextId (boot demo_three) = 0" by code_simp
  have e: "priv_currentIndex (service (boot demo_three))
             < int (length (priv_paths (service (boot demo_three))))"
    by (simp add: i p)
  from back_then_forward [OF a b c d e]
  show ?thesis
    using a b c d by (simp add: Let_def i p l g n js_or_def)
qed

text \<open>
  C8 as stated fails in states that the service reaches by its own documented behaviour.
  After a failed \<open>goBack()\<close> the index is not rolled back, so the index is 1 while the
  location is still \<open>/contact\<close>; going back and forward from there ends at \<open>/about\<close>, not
  at the original \<open>currentPath\<close>. And after a queued request has resumed with a stale
  index, the index equals the stack length: \<open>goBack()\<close> succeeds but \<open>goForward()\<close> is
  refused, and the index ends at 0 instead of 1.
\<close>

theorem unsynced_location_counterexample:
  "get_canGoBack (service demo_unsynced)
   \<and> navigating demo_unsynced = [] \<and> navigationPromise (service demo_unsynced) = None
   \<and> priv_paths (service demo_unsynced) = [''/home'', ''/about'', ''/contact'']
   \<and> priv_currentIndex (service demo_unsynced) = 1
   \<and> get_currentPath (service demo_unsynced) = ''/contact''
   \<and> settled (run demo_unsynced
         [CallGoBack, UrlChange ''/home'', RouterSettles 1 (Resolved True),
          CallGoForward, UrlChange ''/about'', RouterSettles 2 (Resolved True)])
        = [(0, False), (1, True), (2, True)]
   \<and> priv_currentIndex (service (run demo_unsynced
         [CallGoBack, UrlChange ''/home'', RouterSettles 1 (Resolved True),
          CallGoForward, UrlChange ''/about'', RouterSettles 2 (Resolved True)])) = 1
   \<and> get_currentPath (service (run demo_unsynced
         [CallGoBack, UrlChange ''/home'', RouterSettles 1 (Resolved True),
          CallGoForward, UrlChange ''/about'', RouterSettles 2 (Resolved True)])) = ''/about''
   \<and> get_canGoBack (service demo_overrun)
   \<and> navigating demo_overrun = [] \<and> navigationPromise (service demo_overrun) = None
   \<and> priv_paths (service demo_overrun) = [''/e'']
   \<and> priv_currentIndex (service demo_overrun) = 1
   \<and> settled (run demo_overrun
         [CallGoBack, RouterSettles 2 (Resolved True), CallGoForward])
        = [(0, True), (1, True), (2, True), (3, False)]
   \<and> priv_currentIndex (service (run demo_overrun
         [CallGoBack, RouterSettles 2 (Resolved True), CallGoForward])) = 0"
  by code_simp


end
